theory Spec2Isabelle
  imports Main
begin

section \<open>Bulk load of a B-tree (src/btree/bt\_bulk.c)\<close>

text \<open>
  The file embeds the seven functions of \<^verbatim>\<open>bt_bulk.c\<close>: \<^verbatim>\<open>__wt_bulk_init\<close>,
  \<^verbatim>\<open>__wt_bulk_insert\<close>, \<^verbatim>\<open>__wt_bulk_col\<close>, \<^verbatim>\<open>__wt_bulk_row\<close>, \<^verbatim>\<open>__wt_bulk_end\<close>,
  \<^verbatim>\<open>__wt_bulk_row_page\<close> and \<^verbatim>\<open>__wt_bulk_col_page\<close>. A C function that returns
  \<^verbatim>\<open>int\<close> and mutates the cursor, the tree and the session becomes a function from the
  state to the returned code and the new state. Identifiers lose their leading
  underscores, which an Isabelle name cannot have.

  The structures (\<^verbatim>\<open>CURSOR_BULK\<close>, \<^verbatim>\<open>WT_BTREE\<close>, \<^verbatim>\<open>WT_PAGE\<close>, \<^verbatim>\<open>WT_REF\<close>) are declared
  in \<^verbatim>\<open>wt_internal.h\<close>, which is not among the sources; the records below hold the
  fields that \<^verbatim>\<open>bt_bulk.c\<close> reads or writes. The widths of the counters (\<^verbatim>\<open>recno\<close>,
  \<^verbatim>\<open>ins_cnt\<close>, \<^verbatim>\<open>ipp\<close>, \<^verbatim>\<open>ref_next\<close>, \<^verbatim>\<open>ref_entries\<close>, \<^verbatim>\<open>ref_allocated\<close>) are declared
  there too, so the counters are natural numbers here and no wrap-around is modelled.
\<close>

subsection \<open>Pages and references\<close>

datatype btree_type = BTREE_COL_FIX | BTREE_COL_RLE | BTREE_COL_VAR | BTREE_ROW

text \<open>
  The page types named in the source, and \<open>WT_PAGE_INVALID\<close> for the value of a
  \<^verbatim>\<open>page_type\<close> that \<^verbatim>\<open>__wt_bulk_init\<close> has not set yet.
\<close>

datatype page_type =
  WT_PAGE_INVALID | WT_PAGE_COL_FIX | WT_PAGE_COL_INT | WT_PAGE_COL_RLE
  | WT_PAGE_COL_VAR | WT_PAGE_ROW_INT | WT_PAGE_ROW_LEAF

datatype page_flag = WT_PAGE_INITIAL_EMPTY | WT_PAGE_BULK_LOAD

datatype btree_flag = WT_BTREE_NO_EVICTION | WT_BTREE_FLAG nat

datatype wt_ref_state = WT_REF_DISK | WT_REF_MEM

datatype wt_addr = WT_ADDR_INVALID | WT_ADDR nat

text \<open>
  A \<^verbatim>\<open>WT_INSERT\<close> carries a key and points to the \<^verbatim>\<open>WT_UPDATE\<close> with the value. A
  \<^verbatim>\<open>NULL\<close>-terminated chain of \<^verbatim>\<open>next\<close> pointers is a list, in chain order.
\<close>

record wt_insert =
  ins_key :: string
  ins_upd :: "string option"

text \<open>
  Where a page's \<^verbatim>\<open>parent_ref\<close> points: at the tree's \<^verbatim>\<open>root_page\<close>, or at the
  \<^verbatim>\<open>ref\<close> member of slot \<open>i\<close> of the reference array that starts at address \<open>a\<close>
  (\<^verbatim>\<open>&cbulk->cref[i].ref\<close>, \<^verbatim>\<open>&cbulk->rref[i].ref\<close>). \<open>Ref_null\<close> is the zero of
  \<^verbatim>\<open>__wt_calloc_def\<close>.
\<close>

datatype parent_ref = Ref_null | Ref_root | Ref_slot nat nat

text \<open>
  The union \<^verbatim>\<open>page->u\<close>: \<^verbatim>\<open>u.bulk\<close> with \<^verbatim>\<open>recno\<close> and \<^verbatim>\<open>upd\<close> or \<^verbatim>\<open>ins\<close>,
  \<^verbatim>\<open>u.col_int\<close> with \<^verbatim>\<open>recno\<close> and the address \<^verbatim>\<open>t\<close> of the array of children,
  \<^verbatim>\<open>u.row_int\<close> with \<^verbatim>\<open>t\<close>.
\<close>

datatype page_body =
  U_zero
  | U_bulk_upd nat "string list"
  | U_bulk_ins nat "wt_insert list"
  | U_col_int nat nat
  | U_row_int nat

record wt_page =
  parent_ref :: parent_ref
  read_gen :: nat
  entries :: nat
  u :: page_body
  pg_type :: page_type
  modified :: bool
  pg_flags :: "page_flag set"

definition page_zero :: wt_page where
  "page_zero = \<lparr>parent_ref = Ref_null, read_gen = 0, entries = 0, u = U_zero,
     pg_type = WT_PAGE_INVALID, modified = False, pg_flags = {}\<rparr>"

record wt_ref =
  ref_state :: wt_ref_state
  ref_addr :: wt_addr
  ref_size :: nat
  ref_page :: "wt_page option"

text \<open>
  \<open>Link_base\<close> is \<^verbatim>\<open>&cbulk->upd_base\<close> (or \<^verbatim>\<open>&cbulk->ins_base\<close>), \<open>Link_next\<close> is
  the address of the \<^verbatim>\<open>next\<close> member of the last element of the chain that starts at
  the base, \<open>Link_null\<close> is a pointer that was never set.
\<close>

datatype link = Link_null | Link_base | Link_next

subsection \<open>The state\<close>

text \<open>
  One record for what the functions reach through \<^verbatim>\<open>cbulk\<close>: the tree
  (\<^verbatim>\<open>session->btree\<close>), the cursor's key and value, the bulk cursor, and a ledger of
  what the functions outside this file were asked to do. A reference array is its
  address (0 is \<^verbatim>\<open>NULL\<close>) and its slots; a column slot holds a record number, a row
  slot a key (the embedded \<^verbatim>\<open>WT_REF\<close> of a slot is written by reconciliation only and
  is not modelled).
\<close>

record state =
  root_page :: wt_ref
  btree_flags :: "btree_flag set"
  btree_type :: btree_type
  items_inserted :: nat
  cur_key :: string
  cur_value :: string
  page_type :: page_type
  recno :: nat
  ipp :: nat
  ins_base :: "wt_insert list"
  insp :: link
  upd_base :: "string list"
  updp :: link
  ins_cnt :: nat
  rref_addr :: nat
  rref :: "nat \<Rightarrow> string"
  cref_addr :: nat
  cref :: "nat \<Rightarrow> nat"
  ref_next :: nat
  ref_entries :: nat
  ref_allocated :: nat
  key :: string
  calls :: nat
  sb_allocs :: nat
  sb_frees :: nat
  page_allocs :: nat
  next_addr :: nat
  reconciled :: "(wt_page \<times> int) list"
  freed_pages :: "wt_page list"
  messages :: "string list"

text \<open>
  What the file takes from outside: the code each fallible call returns (the \<open>n\<close>-th
  such call of the run returns \<open>ext_ret n\<close>, 0 for success), whether a successful
  \<^verbatim>\<open>realloc\<close> moves the block, the generation \<^verbatim>\<open>__wt_cache_read_gen\<close> hands out, the
  constant \<^verbatim>\<open>WT_ERROR\<close> and the two element sizes.
\<close>

record env =
  ext_ret :: "nat \<Rightarrow> int"
  realloc_moves :: "nat \<Rightarrow> bool"
  cache_read_gen :: "nat \<Rightarrow> nat"
  WT_ERROR :: int
  sizeof_rref :: nat
  sizeof_cref :: nat

datatype fault = Null_deref | Out_of_bounds

subsection \<open>The functions called from outside the file\<close>

definition ext_call :: "env \<Rightarrow> state \<Rightarrow> int \<times> state" where
  "ext_call env s = (ext_ret env (calls s), s\<lparr>calls := Suc (calls s)\<rparr>)"

text \<open>
  Modelled from the spec: \<^verbatim>\<open>__wt_update_alloc\<close> is not among the sources
  (``alloc\_update(value\_bytes) -> owned Update | OutOfMemory''). A failure allocates
  nothing.
\<close>

definition wt_update_alloc :: "env \<Rightarrow> string \<Rightarrow> state \<Rightarrow> int \<times> string option \<times> state" where
  "wt_update_alloc env v s =
     (case ext_call env s of (r, s1) \<Rightarrow>
        if r \<noteq> 0 then (r, None, s1)
        else (0, Some v, s1\<lparr>sb_allocs := Suc (sb_allocs s1)\<rparr>))"

text \<open>
  Modelled from the spec: \<^verbatim>\<open>__wt_row_insert_alloc\<close> is not among the sources
  (``alloc\_key\_record(key\_bytes) -> owned KeyRecord | OutOfMemory''). The new
  \<^verbatim>\<open>WT_INSERT\<close> has no update yet.
\<close>

definition wt_row_insert_alloc :: "env \<Rightarrow> string \<Rightarrow> state \<Rightarrow> int \<times> wt_insert option \<times> state" where
  "wt_row_insert_alloc env k s =
     (case ext_call env s of (r, s1) \<Rightarrow>
        if r \<noteq> 0 then (r, None, s1)
        else (0, Some \<lparr>ins_key = k, ins_upd = None\<rparr>, s1\<lparr>sb_allocs := Suc (sb_allocs s1)\<rparr>))"

text \<open>
  Modelled from the spec: \<^verbatim>\<open>__wt_sb_decrement\<close> is not among the sources; it gives back
  one allocation of \<^verbatim>\<open>__wt_update_alloc\<close> or \<^verbatim>\<open>__wt_row_insert_alloc\<close> (``release
  whatever was already allocated for this record'').
\<close>

definition wt_sb_decrement :: "state \<Rightarrow> state" where
  "wt_sb_decrement s = s\<lparr>sb_frees := Suc (sb_frees s)\<rparr>"

text \<open>
  Modelled from the spec: \<^verbatim>\<open>__wt_realloc\<close> is not among the sources (``growable-array
  reallocate-by-chunk''). As C's \<^verbatim>\<open>realloc\<close>: on failure nothing changes; on success
  the contents are kept, the byte count is stored, and the block stays where it is or
  moves to a new address, as the allocator decides. A \<^verbatim>\<open>NULL\<close> block always gets a
  new address.
\<close>

definition wt_realloc :: "env \<Rightarrow> nat \<Rightarrow> nat \<Rightarrow> state \<Rightarrow> int \<times> nat \<times> state" where
  "wt_realloc env bytes p s =
     (case ext_call env s of (r, s1) \<Rightarrow>
        if r \<noteq> 0 then (r, p, s1)
        else if p \<noteq> 0 \<and> \<not> realloc_moves env (calls s) then
          (0, p, s1\<lparr>ref_allocated := bytes\<rparr>)
        else
          (0, Suc (next_addr s1),
           s1\<lparr>ref_allocated := bytes, next_addr := Suc (next_addr s1)\<rparr>))"

text \<open>
  Modelled from the spec: \<^verbatim>\<open>__wt_calloc_def\<close> is not among the sources; it is called
  here for one zero-filled \<^verbatim>\<open>WT_PAGE\<close>, which is \<open>page_zero\<close>.
\<close>

definition wt_calloc_page :: "env \<Rightarrow> state \<Rightarrow> int \<times> state" where
  "wt_calloc_page env s =
     (case ext_call env s of (r, s1) \<Rightarrow>
        if r \<noteq> 0 then (r, s1) else (0, s1\<lparr>page_allocs := Suc (page_allocs s1)\<rparr>))"

text \<open>
  Modelled from the spec: \<^verbatim>\<open>__wt_page_reconcile\<close> is not among the sources
  (``reconcile\_and\_evict(page, exclusive=true) -> Ok | Err'', opaque and synchronous).
  The ledger \<open>reconciled\<close> keeps every page handed over, in order, with the code the
  call returned.
\<close>

definition wt_page_reconcile :: "env \<Rightarrow> wt_page \<Rightarrow> state \<Rightarrow> int \<times> state" where
  "wt_page_reconcile env page s =
     (case ext_call env s of (r, s1) \<Rightarrow>
        (r, s1\<lparr>reconciled := reconciled s1 @ [(page, r)]\<rparr>))"

subsection \<open>\<^verbatim>\<open>__wt_bulk_init\<close>\<close>

text \<open>
  \<^verbatim>\<open>F_ISSET(btree->root_page.page, WT_PAGE_INITIAL_EMPTY)\<close> reads the flags of the
  root page through the pointer, so the function is undefined on a \<^verbatim>\<open>NULL\<close> root
  page; the model returns the fault \<open>Null_deref\<close> there.

  Modelled from the spec: \<^verbatim>\<open>__wt_free\<close> and \<^verbatim>\<open>__wt_errx\<close> are not among the sources.
  \<^verbatim>\<open>__wt_free\<close> releases the page (``release the placeholder empty page'') and clears
  the pointer it is given; the ledger \<open>freed_pages\<close> keeps the page. \<^verbatim>\<open>__wt_errx\<close>
  reports a message, kept in \<open>messages\<close>, and touches nothing else.
\<close>

definition bulk_load_msg :: string where
  "bulk_load_msg = ''bulk-load is only possible for empty trees''"

definition wt_bulk_init :: "env \<Rightarrow> state \<Rightarrow> fault + (int \<times> state)" where
  "wt_bulk_init env s =
     (case ref_page (root_page s) of
        None \<Rightarrow> Inl Null_deref
      | Some p \<Rightarrow>
          if WT_PAGE_INITIAL_EMPTY \<in> pg_flags p then
            let s1 = s\<lparr>root_page := (root_page s)\<lparr>ref_state := WT_REF_DISK\<rparr>\<rparr>;
                s2 = s1\<lparr>root_page := (root_page s1)\<lparr>ref_page := None\<rparr>,
                        freed_pages := freed_pages s1 @ [p]\<rparr>;
                s3 = s2\<lparr>btree_flags := insert WT_BTREE_NO_EVICTION (btree_flags s2)\<rparr>;
                s4 = (case btree_type s3 of
                        BTREE_COL_FIX \<Rightarrow>
                          s3\<lparr>recno := 1, updp := Link_base, page_type := WT_PAGE_COL_FIX\<rparr>
                      | BTREE_COL_RLE \<Rightarrow>
                          s3\<lparr>recno := 1, updp := Link_base, page_type := WT_PAGE_COL_RLE\<rparr>
                      | BTREE_COL_VAR \<Rightarrow>
                          s3\<lparr>recno := 1, updp := Link_base, page_type := WT_PAGE_COL_VAR\<rparr>
                      | BTREE_ROW \<Rightarrow>
                          s3\<lparr>insp := Link_base, page_type := WT_PAGE_ROW_LEAF\<rparr>)
            in Inr (0, s4\<lparr>ipp := 50000\<rparr>)
          else
            Inr (WT_ERROR env, s\<lparr>messages := messages s @ [bulk_load_msg]\<rparr>))"

subsection \<open>\<^verbatim>\<open>__wt_bulk_col_page\<close> and \<^verbatim>\<open>__wt_bulk_row_page\<close>\<close>

text \<open>
  \<^verbatim>\<open>WT_RET(e)\<close> returns the code of \<open>e\<close> when it is not 0. Writing slot
  \<^verbatim>\<open>ref_next\<close> of an array of \<^verbatim>\<open>ref_entries\<close> slots is in range only below
  \<^verbatim>\<open>ref_entries\<close>.
\<close>

definition wt_bulk_col_page :: "env \<Rightarrow> state \<Rightarrow> fault + (int \<times> state)" where
  "wt_bulk_col_page env s =
     (case (if ref_next s = ref_entries s then
              (case wt_realloc env ((ref_entries s + 1000) * sizeof_cref env) (cref_addr s) s of
                 (r, p, s1) \<Rightarrow>
                   if r \<noteq> 0 then (r, s1)
                   else (0, s1\<lparr>cref_addr := p, ref_entries := ref_entries s1 + 1000\<rparr>))
            else (0, s)) of
        (r, s1) \<Rightarrow>
          if r \<noteq> 0 then Inr (r, s1)
          else if \<not> ref_next s1 < ref_entries s1 then Inl Out_of_bounds
          else
            let s2 = s1\<lparr>cref := (cref s1)(ref_next s1 := recno s1)\<rparr> in
            (case wt_calloc_page env s2 of
               (r, s3) \<Rightarrow>
                 if r \<noteq> 0 then Inr (r, s3)
                 else
                   let page = page_zero
                         \<lparr>parent_ref := Ref_slot (cref_addr s3) (ref_next s3),
                          read_gen := cache_read_gen env (calls s3),
                          u := U_bulk_upd (recno s3) (upd_base s3),
                          pg_type := page_type s3,
                          modified := True,
                          pg_flags := {WT_PAGE_BULK_LOAD}\<rparr>;
                       s4 = s3\<lparr>recno := recno s3 + ins_cnt s3\<rparr>;
                       s5 = s4\<lparr>updp := Link_base, ins_cnt := 0\<rparr>;
                       s6 = s5\<lparr>ref_next := Suc (ref_next s5)\<rparr>
                   in Inr (wt_page_reconcile env page s6)))"

text \<open>
  Modelled from the spec: \<^verbatim>\<open>__wt_buf_set\<close> and \<^verbatim>\<open>__wt_buf_steal\<close> are not among the
  sources (``row-store copies the first key of the page's record list'').
  \<^verbatim>\<open>__wt_buf_set\<close> copies the key of the first \<^verbatim>\<open>WT_INSERT\<close> into \<^verbatim>\<open>cbulk->key\<close> and
  can fail; \<^verbatim>\<open>__wt_buf_steal\<close> moves the buffer's memory into the slot and leaves
  the buffer empty. Reading the key size of \<^verbatim>\<open>ins_base\<close> dereferences it, which is
  undefined when the list is empty.
\<close>

definition wt_bulk_row_page :: "env \<Rightarrow> state \<Rightarrow> fault + (int \<times> state)" where
  "wt_bulk_row_page env s =
     (case (if ref_next s = ref_entries s then
              (case wt_realloc env ((ref_entries s + 1000) * sizeof_rref env) (rref_addr s) s of
                 (r, p, s1) \<Rightarrow>
                   if r \<noteq> 0 then (r, s1)
                   else (0, s1\<lparr>rref_addr := p, ref_entries := ref_entries s1 + 1000\<rparr>))
            else (0, s)) of
        (r, s1) \<Rightarrow>
          if r \<noteq> 0 then Inr (r, s1)
          else
            (case ins_base s1 of
               [] \<Rightarrow> Inl Null_deref
             | first # _ \<Rightarrow>
                 (case ext_call env s1 of
                    (r, s2) \<Rightarrow>
                      if r \<noteq> 0 then Inr (r, s2)
                      else if \<not> ref_next s2 < ref_entries s2 then Inl Out_of_bounds
                      else
                        let s3 = s2\<lparr>key := ins_key first\<rparr>;
                            s4 = s3\<lparr>rref := (rref s3)(ref_next s3 := key s3), key := []\<rparr>
                        in
                        (case wt_calloc_page env s4 of
                           (r, s5) \<Rightarrow>
                             if r \<noteq> 0 then Inr (r, s5)
                             else
                               let page = page_zero
                                     \<lparr>parent_ref := Ref_slot (rref_addr s5) (ref_next s5),
                                      read_gen := cache_read_gen env (calls s5),
                                      u := U_bulk_ins 0 (ins_base s5),
                                      pg_type := WT_PAGE_ROW_LEAF,
                                      modified := True,
                                      pg_flags := {WT_PAGE_BULK_LOAD}\<rparr>;
                                   s6 = s5\<lparr>insp := Link_base, ins_cnt := 0\<rparr>;
                                   s7 = s6\<lparr>ref_next := Suc (ref_next s6)\<rparr>
                               in Inr (wt_page_reconcile env page s7)))))"

subsection \<open>\<^verbatim>\<open>__wt_bulk_col\<close> and \<^verbatim>\<open>__wt_bulk_row\<close>\<close>

text \<open>
  \<^verbatim>\<open>(*cbulk->updp) = upd\<close> stores the new element where the link points: in
  \<^verbatim>\<open>upd_base\<close>, which then is the chain of this one element (whatever it pointed to
  before), or at the end of the chain.
\<close>

definition link_store :: "link \<Rightarrow> 'a list \<Rightarrow> 'a \<Rightarrow> fault + 'a list" where
  "link_store l base x =
     (case l of
        Link_null \<Rightarrow> Inl Null_deref
      | Link_base \<Rightarrow> Inr [x]
      | Link_next \<Rightarrow> Inr (base @ [x]))"

definition wt_bulk_col :: "env \<Rightarrow> state \<Rightarrow> fault + (int \<times> state)" where
  "wt_bulk_col env s =
     (case wt_update_alloc env (cur_value s) s of
        (r, None, s1) \<Rightarrow> Inr (r, s1)
      | (r, Some upd, s1) \<Rightarrow>
          (case link_store (updp s1) (upd_base s1) upd of
             Inl f \<Rightarrow> Inl f
           | Inr chain \<Rightarrow>
               let s2 = s1\<lparr>upd_base := chain\<rparr>;
                   s3 = s2\<lparr>updp := Link_next\<rparr>;
                   s4 = s3\<lparr>ins_cnt := Suc (ins_cnt s3)\<rparr>
               in
               if ins_cnt s4 = ipp s4 then
                 (case wt_bulk_col_page env s4 of
                    Inl f \<Rightarrow> Inl f
                  | Inr (ret, s5) \<Rightarrow>
                      if ret \<noteq> 0 then Inr (ret, wt_sb_decrement s5)
                      else Inr (0, s5))
               else Inr (0, s4)))"

text \<open>
  The local \<^verbatim>\<open>upd\<close> of \<^verbatim>\<open>__wt_bulk_row\<close> is set to \<^verbatim>\<open>NULL\<close> and never assigned (the
  update is stored in \<^verbatim>\<open>ins->upd\<close>), so the label \<^verbatim>\<open>err\<close> gives back the
  \<^verbatim>\<open>WT_INSERT\<close> only.
\<close>

definition wt_bulk_row_err :: "wt_insert option \<Rightarrow> string option \<Rightarrow> state \<Rightarrow> state" where
  "wt_bulk_row_err ins upd s =
     (let s1 = (case ins of None \<Rightarrow> s | Some _ \<Rightarrow> wt_sb_decrement s) in
      (case upd of None \<Rightarrow> s1 | Some _ \<Rightarrow> wt_sb_decrement s1))"

definition wt_bulk_row :: "env \<Rightarrow> state \<Rightarrow> fault + (int \<times> state)" where
  "wt_bulk_row env s =
     (case wt_row_insert_alloc env (cur_key s) s of
        (r, None, s1) \<Rightarrow> Inr (r, s1)
      | (r, Some ins0, s1) \<Rightarrow>
          (case wt_update_alloc env (cur_value s1) s1 of
             (ret, None, s2) \<Rightarrow> Inr (ret, wt_bulk_row_err (Some ins0) None s2)
           | (ret, Some v, s2) \<Rightarrow>
               let ins = ins0\<lparr>ins_upd := Some v\<rparr> in
               (case link_store (insp s2) (ins_base s2) ins of
                  Inl f \<Rightarrow> Inl f
                | Inr chain \<Rightarrow>
                    let s3 = s2\<lparr>ins_base := chain\<rparr>;
                        s4 = s3\<lparr>insp := Link_next\<rparr>;
                        s5 = s4\<lparr>ins_cnt := Suc (ins_cnt s4)\<rparr>
                    in
                    if ins_cnt s5 = ipp s5 then
                      (case wt_bulk_row_page env s5 of
                         Inl f \<Rightarrow> Inl f
                       | Inr (ret, s6) \<Rightarrow>
                           if ret \<noteq> 0 then Inr (ret, wt_bulk_row_err (Some ins) None s6)
                           else Inr (0, s6))
                    else Inr (0, s5))))"

subsection \<open>\<^verbatim>\<open>__wt_bulk_insert\<close>\<close>

text \<open>
  The macro \<^verbatim>\<open>WT_ILLEGAL_FORMAT\<close> is not among the sources. It is the \<^verbatim>\<open>default\<close>
  label of the switch and is taken to report the format error and return
  \<^verbatim>\<open>WT_ERROR\<close>; it is reached only with a page type that \<^verbatim>\<open>__wt_bulk_init\<close> never
  sets. \<^verbatim>\<open>WT_STAT_INCR\<close> adds 1 to the statistic it names.
\<close>

definition illegal_format_msg :: string where
  "illegal_format_msg = ''illegal file format''"

definition wt_illegal_format :: "env \<Rightarrow> state \<Rightarrow> fault + (int \<times> state)" where
  "wt_illegal_format env s =
     Inr (WT_ERROR env, s\<lparr>messages := messages s @ [illegal_format_msg]\<rparr>)"

definition is_col_leaf :: "page_type \<Rightarrow> bool" where
  "is_col_leaf t \<longleftrightarrow> t = WT_PAGE_COL_FIX \<or> t = WT_PAGE_COL_RLE \<or> t = WT_PAGE_COL_VAR"

definition stat_incr_items_inserted :: "state \<Rightarrow> state" where
  "stat_incr_items_inserted s = s\<lparr>items_inserted := Suc (items_inserted s)\<rparr>"

definition wt_bulk_insert :: "env \<Rightarrow> state \<Rightarrow> fault + (int \<times> state)" where
  "wt_bulk_insert env s =
     (if is_col_leaf (page_type s) then
        (case wt_bulk_col env s of
           Inl f \<Rightarrow> Inl f
         | Inr (r, s1) \<Rightarrow>
             if r \<noteq> 0 then Inr (r, s1) else Inr (0, stat_incr_items_inserted s1))
      else if page_type s = WT_PAGE_ROW_LEAF then
        (case wt_bulk_row env s of
           Inl f \<Rightarrow> Inl f
         | Inr (r, s1) \<Rightarrow>
             if r \<noteq> 0 then Inr (r, s1) else Inr (0, stat_incr_items_inserted s1))
      else wt_illegal_format env s)"

subsection \<open>\<^verbatim>\<open>__wt_bulk_end\<close>\<close>

text \<open>
  The first statement of \<^verbatim>\<open>__wt_bulk_end\<close>: ``If the page has entries, reconcile
  and discard it''. The switch has no \<^verbatim>\<open>default\<close> label.
\<close>

definition wt_bulk_end_flush :: "env \<Rightarrow> state \<Rightarrow> fault + (int \<times> state)" where
  "wt_bulk_end_flush env s =
     (if ins_cnt s \<noteq> 0 then
        (if is_col_leaf (page_type s) then wt_bulk_col_page env s
         else if page_type s = WT_PAGE_ROW_LEAF then wt_bulk_row_page env s
         else Inr (0, s))
      else Inr (0, s))"

text \<open>The internal page that \<^verbatim>\<open>__wt_bulk_end\<close> builds when the switch finds a leaf type.\<close>

definition root_of :: "state \<Rightarrow> wt_page" where
  "root_of s =
     (let page = page_zero\<lparr>parent_ref := Ref_root, read_gen := 0, modified := True\<rparr> in
      if is_col_leaf (page_type s) then
        page\<lparr>entries := ref_next s, u := U_col_int 1 (cref_addr s), pg_type := WT_PAGE_COL_INT\<rparr>
      else
        page\<lparr>entries := ref_next s, u := U_row_int (rref_addr s), pg_type := WT_PAGE_ROW_INT\<rparr>)"

definition wt_bulk_end :: "env \<Rightarrow> state \<Rightarrow> fault + (int \<times> state)" where
  "wt_bulk_end env s =
     (case wt_bulk_end_flush env s of
        Inl f \<Rightarrow> Inl f
      | Inr (r, s1) \<Rightarrow>
          if r \<noteq> 0 then Inr (r, s1)
          else
            (case wt_calloc_page env s1 of
               (r, s2) \<Rightarrow>
                 if r \<noteq> 0 then Inr (r, s2)
                 else if is_col_leaf (page_type s2) \<or> page_type s2 = WT_PAGE_ROW_LEAF then
                   let page = root_of s2;
                       s3 = s2\<lparr>root_page := (root_page s2)
                              \<lparr>ref_state := WT_REF_MEM, ref_addr := WT_ADDR_INVALID,
                               ref_size := 0, ref_page := Some page\<rparr>\<rparr>
                   in Inr (wt_page_reconcile env page s3)
                 else wt_illegal_format env s2))"

subsection \<open>A load: a sequence of inserts, then the end\<close>

text \<open>
  The caller stores the key and the value in the cursor and calls
  \<^verbatim>\<open>__wt_bulk_insert\<close>, once per record; the load is given up at the first call that
  does not return 0.
\<close>

fun bulk_inserts :: "env \<Rightarrow> (string \<times> string) list \<Rightarrow> state \<Rightarrow> fault + (int \<times> state)" where
  "bulk_inserts env [] s = Inr (0, s)"
| "bulk_inserts env (kv # kvs) s =
     (case wt_bulk_insert env (s\<lparr>cur_key := fst kv, cur_value := snd kv\<rparr>) of
        Inl f \<Rightarrow> Inl f
      | Inr (r, s1) \<Rightarrow> if r \<noteq> 0 then Inr (r, s1) else bulk_inserts env kvs s1)"

definition bulk_load :: "env \<Rightarrow> (string \<times> string) list \<Rightarrow> state \<Rightarrow> fault + (int \<times> state)" where
  "bulk_load env kvs s =
     (case bulk_inserts env kvs s of
        Inl f \<Rightarrow> Inl f
      | Inr (r, s1) \<Rightarrow> if r \<noteq> 0 then Inr (r, s1) else wt_bulk_end env s1)"

subsection \<open>Example states and environments\<close>

text \<open>
  A tree that was just opened, with its placeholder root page, and a bulk cursor whose
  memory is still zero-filled.
\<close>

definition new_cursor :: "btree_type \<Rightarrow> state" where
  "new_cursor t =
     \<lparr>root_page = \<lparr>ref_state = WT_REF_MEM, ref_addr = WT_ADDR_INVALID, ref_size = 0,
        ref_page = Some (page_zero\<lparr>pg_flags := {WT_PAGE_INITIAL_EMPTY}\<rparr>)\<rparr>,
      btree_flags = {}, btree_type = t, items_inserted = 0,
      cur_key = [], cur_value = [], page_type = WT_PAGE_INVALID, recno = 0, ipp = 0,
      ins_base = [], insp = Link_null, upd_base = [], updp = Link_null, ins_cnt = 0,
      rref_addr = 0, rref = (\<lambda>_. []), cref_addr = 0, cref = (\<lambda>_. 0),
      ref_next = 0, ref_entries = 0, ref_allocated = 0, key = [],
      calls = 0, sb_allocs = 0, sb_frees = 0, page_allocs = 0, next_addr = 0,
      reconciled = [], freed_pages = [], messages = []\<rparr>"

text \<open>
  An environment in which exactly the calls numbered in \<open>F\<close> fail, with code 12, and
  every successful \<^verbatim>\<open>realloc\<close> moves the block.
\<close>

definition env_fail_at :: "nat set \<Rightarrow> env" where
  "env_fail_at F =
     \<lparr>ext_ret = (\<lambda>n. if n \<in> F then 12 else 0), realloc_moves = (\<lambda>_. True),
      cache_read_gen = (\<lambda>n. n), WT_ERROR = - 1, sizeof_rref = 32, sizeof_cref = 24\<rparr>"

text \<open>The cursor after \<^verbatim>\<open>__wt_bulk_init\<close>, with the capacity set to \<open>k\<close>.\<close>

definition started :: "btree_type \<Rightarrow> nat \<Rightarrow> state" where
  "started t k =
     (case wt_bulk_init (env_fail_at {}) (new_cursor t) of
        Inr (r, s) \<Rightarrow> s\<lparr>ipp := k\<rparr>
      | Inl f \<Rightarrow> new_cursor t)"

subsection \<open>Reading a load\<close>

text \<open>No fallible call of the environment fails.\<close>

definition all_ok :: "env \<Rightarrow> bool" where
  "all_ok env \<longleftrightarrow> (\<forall>n. ext_ret env n = 0)"

text \<open>
  The records of the page being filled: the chain from the base once the link has left
  the base, nothing while the link still points at the base (what the base points to
  then belongs to the page flushed last).
\<close>

definition active_upd :: "state \<Rightarrow> string list" where
  "active_upd s = (if updp s = Link_next then upd_base s else [])"

definition active_ins :: "state \<Rightarrow> wt_insert list" where
  "active_ins s = (if insp s = Link_next then ins_base s else [])"

fun body_upds :: "page_body \<Rightarrow> string list" where
  "body_upds (U_bulk_upd r xs) = xs"
| "body_upds b = []"

fun body_ins :: "page_body \<Rightarrow> wt_insert list" where
  "body_ins (U_bulk_ins r xs) = xs"
| "body_ins b = []"

fun body_recno :: "page_body \<Rightarrow> nat" where
  "body_recno (U_bulk_upd r xs) = r"
| "body_recno (U_bulk_ins r xs) = r"
| "body_recno (U_col_int r t) = r"
| "body_recno b = 0"

text \<open>The number of records a skeleton page holds.\<close>

definition body_len :: "page_body \<Rightarrow> nat" where
  "body_len b = length (body_upds b) + length (body_ins b)"

text \<open>
  The skeleton pages handed to reconciliation so far, in the order of the calls: the
  pages of the ledger that carry \<^verbatim>\<open>WT_PAGE_BULK_LOAD\<close> (the root page does not).
\<close>

definition flushed :: "state \<Rightarrow> wt_page list" where
  "flushed s = filter (\<lambda>p. WT_PAGE_BULK_LOAD \<in> pg_flags p) (map fst (reconciled s))"

text \<open>
  What a reader of the column pages finds for record number \<open>n\<close>: the page whose
  range of record numbers holds \<open>n\<close>, and in it the update at offset \<open>n\<close> minus the
  page's starting record number.
\<close>

fun col_lookup :: "wt_page list \<Rightarrow> nat \<Rightarrow> string option" where
  "col_lookup [] n = None"
| "col_lookup (p # ps) n =
     (if body_recno (u p) \<le> n \<and> n < body_recno (u p) + length (body_upds (u p))
      then Some (body_upds (u p) ! (n - body_recno (u p)))
      else col_lookup ps n)"

text \<open>
  The cursor right after a successful \<^verbatim>\<open>__wt_bulk_init\<close> on a cursor whose counters
  were zero, for a column layout and for the row layout, with any positive capacity
  (\<^verbatim>\<open>__wt_bulk_init\<close> sets 50000).
\<close>

definition col_begun :: "state \<Rightarrow> bool" where
  "col_begun s \<longleftrightarrow>
     is_col_leaf (page_type s) \<and> recno s = 1 \<and> updp s = Link_base \<and> ins_cnt s = 0 \<and>
     ref_next s = 0 \<and> ref_entries s = 0 \<and> reconciled s = [] \<and> 0 < ipp s"

definition row_begun :: "state \<Rightarrow> bool" where
  "row_begun s \<longleftrightarrow>
     page_type s = WT_PAGE_ROW_LEAF \<and> insp s = Link_base \<and> ins_cnt s = 0 \<and>
     ref_next s = 0 \<and> ref_entries s = 0 \<and> reconciled s = [] \<and> 0 < ipp s"

text \<open>
  The state in \<^verbatim>\<open>__wt_bulk_col\<close> (\<^verbatim>\<open>__wt_bulk_row\<close>) once the allocations have
  succeeded, the new element is linked and \<^verbatim>\<open>ins_cnt\<close> is incremented, before the
  comparison with \<^verbatim>\<open>ipp\<close>.
\<close>

definition col_linked :: "state \<Rightarrow> state" where
  "col_linked s =
     s\<lparr>calls := Suc (calls s), sb_allocs := Suc (sb_allocs s),
       upd_base := active_upd s @ [cur_value s], updp := Link_next,
       ins_cnt := Suc (ins_cnt s)\<rparr>"

definition row_linked :: "state \<Rightarrow> state" where
  "row_linked s =
     s\<lparr>calls := Suc (Suc (calls s)), sb_allocs := Suc (Suc (sb_allocs s)),
       ins_base := active_ins s @ [\<lparr>ins_key = cur_key s, ins_upd = Some (cur_value s)\<rparr>],
       insp := Link_next, ins_cnt := Suc (ins_cnt s)\<rparr>"

text \<open>
  The state between two calls of a column load that has inserted the values \<open>h\<close>, and
  of a row load that has inserted the records \<open>h\<close>.
\<close>

definition col_inv :: "string list \<Rightarrow> state \<Rightarrow> bool" where
  "col_inv h s \<longleftrightarrow>
     is_col_leaf (page_type s) \<and> 0 < ipp s \<and> updp s \<noteq> Link_null \<and>
     ins_cnt s = length (active_upd s) \<and> ins_cnt s < ipp s \<and>
     list_all (\<lambda>e. snd e = 0 \<and> pg_flags (fst e) = {WT_PAGE_BULK_LOAD} \<and>
                  length (body_upds (u (fst e))) = ipp s \<and> body_ins (u (fst e)) = [])
       (reconciled s) \<and>
     concat (map (\<lambda>e. body_upds (u (fst e))) (reconciled s)) @ active_upd s = h \<and>
     recno s = Suc (length (reconciled s) * ipp s) \<and>
     ref_next s = length (reconciled s) \<and>
     (\<forall>i<length (reconciled s).
        body_recno (u (fst (reconciled s ! i))) = Suc (i * ipp s) \<and>
        cref s i = Suc (i * ipp s)) \<and>
     ref_entries s = 1000 * ((ref_next s + 999) div 1000)"

definition row_inv :: "wt_insert list \<Rightarrow> state \<Rightarrow> bool" where
  "row_inv h s \<longleftrightarrow>
     page_type s = WT_PAGE_ROW_LEAF \<and> 0 < ipp s \<and> insp s \<noteq> Link_null \<and>
     ins_cnt s = length (active_ins s) \<and> ins_cnt s < ipp s \<and>
     list_all (\<lambda>e. snd e = 0 \<and> pg_flags (fst e) = {WT_PAGE_BULK_LOAD} \<and>
                  length (body_ins (u (fst e))) = ipp s \<and> body_upds (u (fst e)) = [])
       (reconciled s) \<and>
     concat (map (\<lambda>e. body_ins (u (fst e))) (reconciled s)) @ active_ins s = h \<and>
     ref_next s = length (reconciled s) \<and>
     (\<forall>i<length (reconciled s).
        rref s i = ins_key (hd (body_ins (u (fst (reconciled s ! i)))))) \<and>
     ref_entries s = 1000 * ((ref_next s + 999) div 1000)"

text \<open>
  The ledger once the last page is flushed, for a load of \<open>n\<close> records with capacity
  \<open>k\<close>: skeleton pages only, each reconciled with code 0, as many as \<^verbatim>\<open>ref_next\<close>
  counts, all but the last with \<open>k\<close> records, the last with between 1 and \<open>k\<close>.
\<close>

definition leaf_ledger :: "nat \<Rightarrow> nat \<Rightarrow> state \<Rightarrow> bool" where
  "leaf_ledger k n s \<longleftrightarrow>
     list_all (\<lambda>e. snd e = 0 \<and> pg_flags (fst e) = {WT_PAGE_BULK_LOAD}) (reconciled s) \<and>
     ref_next s = length (reconciled s) \<and>
     list_all (\<lambda>e. body_len (u (fst e)) = k) (butlast (reconciled s)) \<and>
     (reconciled s = [] \<or>
        1 \<le> body_len (u (fst (last (reconciled s)))) \<and>
        body_len (u (fst (last (reconciled s)))) \<le> k) \<and>
     sum_list (map (\<lambda>e. body_len (u (fst e))) (reconciled s)) = n \<and>
     ref_entries s = 1000 * ((ref_next s + 999) div 1000)"

definition col_content :: "string list \<Rightarrow> nat \<Rightarrow> state \<Rightarrow> bool" where
  "col_content h k s \<longleftrightarrow>
     list_all (\<lambda>e. body_ins (u (fst e)) = []) (reconciled s) \<and>
     concat (map (\<lambda>e. body_upds (u (fst e))) (reconciled s)) = h \<and>
     (\<forall>i<length (reconciled s).
        body_recno (u (fst (reconciled s ! i))) = Suc (i * k) \<and> cref s i = Suc (i * k))"

definition row_content :: "wt_insert list \<Rightarrow> state \<Rightarrow> bool" where
  "row_content h s \<longleftrightarrow>
     list_all (\<lambda>e. body_upds (u (fst e)) = []) (reconciled s) \<and>
     concat (map (\<lambda>e. body_ins (u (fst e))) (reconciled s)) = h \<and>
     (\<forall>i<length (reconciled s).
        rref s i = ins_key (hd (body_ins (u (fst (reconciled s ! i))))))"

subsection \<open>The reference array\<close>

text \<open>
  In the words of the specification: \<open>c\<close> is the smallest positive multiple of 1000
  that is at least \<open>n\<close>.
\<close>

definition smallest_chunk_multiple :: "nat \<Rightarrow> nat \<Rightarrow> bool" where
  "smallest_chunk_multiple c n \<longleftrightarrow>
     0 < c \<and> 1000 dvd c \<and> n \<le> c \<and> (\<forall>c'. 0 < c' \<and> 1000 dvd c' \<and> n \<le> c' \<longrightarrow> c \<le> c')"

text \<open>
  A back-reference designates a slot of the reference array as it is allocated in state
  \<open>s\<close>: its address is the array's address (\<^verbatim>\<open>cref\<close> for a column layout, \<^verbatim>\<open>rref\<close>
  for the row layout) and its index is below \<^verbatim>\<open>ref_entries\<close>.
\<close>

definition slot_live :: "state \<Rightarrow> parent_ref \<Rightarrow> bool" where
  "slot_live s r =
     (case r of
        Ref_slot a i \<Rightarrow>
          a = (if is_col_leaf (page_type s) then cref_addr s else rref_addr s) \<and>
          i < ref_entries s
      | _ \<Rightarrow> False)"

text \<open>
  What every step of a load keeps, from a state \<open>s\<close> to a later state \<open>s'\<close>: addresses
  are handed out in increasing order, the array never shrinks, and it stays where it is
  as long as it does not grow.
\<close>

definition tracks :: "state \<Rightarrow> state \<Rightarrow> bool" where
  "tracks s s' \<longleftrightarrow>
     next_addr s \<le> next_addr s' \<and>
     (cref_addr s \<le> next_addr s \<longrightarrow> cref_addr s' \<le> next_addr s') \<and>
     ref_entries s \<le> ref_entries s' \<and>
     (ref_entries s' = ref_entries s \<longrightarrow>
        cref_addr s' = cref_addr s \<and> rref_addr s' = rref_addr s) \<and>
     page_type s' = page_type s"

section \<open>Properties\<close>

lemmas ext_defs = ext_call_def wt_update_alloc_def wt_row_insert_alloc_def wt_sb_decrement_def
  wt_realloc_def wt_calloc_page_def wt_page_reconcile_def

lemmas run_defs = wt_bulk_init_def wt_bulk_col_page_def wt_bulk_row_page_def wt_bulk_col_def
  wt_bulk_row_def wt_bulk_row_err_def wt_bulk_insert_def wt_bulk_end_flush_def wt_bulk_end_def
  wt_illegal_format_def link_store_def is_col_leaf_def stat_incr_items_inserted_def root_of_def
  page_zero_def bulk_load_def ext_defs Let_def

lemmas example_defs = started_def new_cursor_def env_fail_at_def

lemma col_page_frame:
  assumes "wt_bulk_col_page env s = Inr (r, s')"
  shows "btree_flags s' = btree_flags s \<and> btree_type s' = btree_type s \<and>
         items_inserted s' = items_inserted s \<and> cur_key s' = cur_key s \<and>
         cur_value s' = cur_value s \<and> freed_pages s' = freed_pages s \<and>
         page_type s' = page_type s \<and> ipp s' = ipp s \<and> root_page s' = root_page s \<and>
         messages s' = messages s \<and> sb_allocs s' = sb_allocs s \<and> sb_frees s' = sb_frees s"
  using assms
  by (auto simp: wt_bulk_col_page_def ext_defs Let_def split: if_splits prod.splits)

lemma row_page_frame:
  assumes "wt_bulk_row_page env s = Inr (r, s')"
  shows "btree_flags s' = btree_flags s \<and> btree_type s' = btree_type s \<and>
         items_inserted s' = items_inserted s \<and> cur_key s' = cur_key s \<and>
         cur_value s' = cur_value s \<and> freed_pages s' = freed_pages s \<and>
         page_type s' = page_type s \<and> ipp s' = ipp s \<and> root_page s' = root_page s \<and>
         messages s' = messages s \<and> sb_allocs s' = sb_allocs s \<and> sb_frees s' = sb_frees s"
  using assms
  by (auto simp: wt_bulk_row_page_def ext_defs Let_def split: if_splits prod.splits list.splits)

lemma end_flush_frame:
  assumes "wt_bulk_end_flush env s = Inr (r, s')"
  shows "btree_flags s' = btree_flags s \<and> btree_type s' = btree_type s \<and>
         items_inserted s' = items_inserted s \<and> cur_key s' = cur_key s \<and>
         cur_value s' = cur_value s \<and> freed_pages s' = freed_pages s \<and>
         page_type s' = page_type s \<and> ipp s' = ipp s \<and> root_page s' = root_page s \<and>
         messages s' = messages s \<and> sb_allocs s' = sb_allocs s \<and> sb_frees s' = sb_frees s"
  using assms col_page_frame [of env s r s'] row_page_frame [of env s r s']
  by (auto simp: wt_bulk_end_flush_def split: if_splits)

lemma bulk_end_after_flush:
  assumes "wt_bulk_end_flush env s = Inr (0, s1)"
  shows "wt_bulk_end env s =
     (if ext_ret env (calls s1) \<noteq> 0 then
        Inr (ext_ret env (calls s1), s1\<lparr>calls := Suc (calls s1)\<rparr>)
      else if is_col_leaf (page_type s1) \<or> page_type s1 = WT_PAGE_ROW_LEAF then
        Inr (ext_ret env (Suc (calls s1)),
             s1\<lparr>calls := Suc (Suc (calls s1)), page_allocs := Suc (page_allocs s1),
                root_page := \<lparr>ref_state = WT_REF_MEM, ref_addr = WT_ADDR_INVALID,
                   ref_size = 0, ref_page = Some (root_of s1)\<rparr>,
                reconciled := reconciled s1 @ [(root_of s1, ext_ret env (Suc (calls s1)))]\<rparr>)
      else
        Inr (WT_ERROR env,
             s1\<lparr>calls := Suc (calls s1), page_allocs := Suc (page_allocs s1),
                messages := messages s1 @ [illegal_format_msg]\<rparr>))"
  using assms
  by (simp add: wt_bulk_end_def wt_illegal_format_def ext_defs Let_def root_of_def)

lemma bulk_end_flush_failed:
  assumes "wt_bulk_end_flush env s = Inr (r, s1)" and "r \<noteq> 0"
  shows "wt_bulk_end env s = Inr (r, s1)"
  using assms by (simp add: wt_bulk_end_def)

lemma bulk_end_frame:
  assumes "wt_bulk_end env s = Inr (r, s')"
  shows "btree_flags s' = btree_flags s \<and> btree_type s' = btree_type s \<and>
         items_inserted s' = items_inserted s \<and> cur_key s' = cur_key s \<and>
         cur_value s' = cur_value s \<and> freed_pages s' = freed_pages s \<and>
         page_type s' = page_type s \<and> ipp s' = ipp s \<and>
         sb_allocs s' = sb_allocs s \<and> sb_frees s' = sb_frees s"
proof (cases "wt_bulk_end_flush env s")
  case (Inl f)
  with assms show ?thesis by (simp add: wt_bulk_end_def)
next
  case (Inr p)
  obtain r1 s1 where p: "p = (r1, s1)" by (cases p)
  note fr = end_flush_frame [OF Inr [unfolded p]]
  show ?thesis
  proof (cases "r1 = 0")
    case True
    with Inr p have fl: "wt_bulk_end_flush env s = Inr (0, s1)" by simp
    have "btree_flags s' = btree_flags s1 \<and> btree_type s' = btree_type s1 \<and>
         items_inserted s' = items_inserted s1 \<and> cur_key s' = cur_key s1 \<and>
         cur_value s' = cur_value s1 \<and> freed_pages s' = freed_pages s1 \<and>
         page_type s' = page_type s1 \<and> ipp s' = ipp s1 \<and>
         sb_allocs s' = sb_allocs s1 \<and> sb_frees s' = sb_frees s1"
      using assms unfolding bulk_end_after_flush [OF fl]
      by (auto split: if_splits)
    with fr show ?thesis by simp
  next
    case False
    with Inr p assms bulk_end_flush_failed [of env s r1 s1] have "s' = s1" by simp
    with fr show ?thesis by simp
  qed
qed

lemma bulk_col_flags:
  assumes "wt_bulk_col env s = Inr (r, s')"
  shows "btree_flags s' = btree_flags s \<and> btree_type s' = btree_type s \<and>
         page_type s' = page_type s \<and> ipp s' = ipp s"
proof -
  have "\<And>t r s'. wt_bulk_col_page env t = Inr (r, s') \<Longrightarrow>
          btree_flags s' = btree_flags t \<and> btree_type s' = btree_type t \<and>
          page_type s' = page_type t \<and> ipp s' = ipp t"
    using col_page_frame by blast
  with assms show ?thesis
    by (fastforce simp: wt_bulk_col_def ext_defs link_store_def Let_def
        split: if_splits prod.splits sum.splits link.splits)
qed

lemma bulk_row_flags:
  assumes "wt_bulk_row env s = Inr (r, s')"
  shows "btree_flags s' = btree_flags s \<and> btree_type s' = btree_type s \<and>
         page_type s' = page_type s \<and> ipp s' = ipp s"
proof -
  have "\<And>t r s'. wt_bulk_row_page env t = Inr (r, s') \<Longrightarrow>
          btree_flags s' = btree_flags t \<and> btree_type s' = btree_type t \<and>
          page_type s' = page_type t \<and> ipp s' = ipp t"
    using row_page_frame by blast
  with assms show ?thesis
    by (fastforce simp: wt_bulk_row_def ext_defs link_store_def Let_def wt_bulk_row_err_def
        split: if_splits prod.splits sum.splits link.splits)
qed

lemma bulk_insert_flags:
  assumes "wt_bulk_insert env s = Inr (r, s')"
  shows "btree_flags s' = btree_flags s \<and> btree_type s' = btree_type s \<and>
         page_type s' = page_type s \<and> ipp s' = ipp s"
  using assms bulk_col_flags [of env s] bulk_row_flags [of env s]
  by (auto simp: wt_bulk_insert_def wt_illegal_format_def stat_incr_items_inserted_def
      split: if_splits sum.splits prod.splits)

lemma bulk_inserts_flags:
  "bulk_inserts env kvs s = Inr (r, s') \<Longrightarrow>
     btree_flags s' = btree_flags s \<and> btree_type s' = btree_type s \<and>
     page_type s' = page_type s \<and> ipp s' = ipp s"
proof (induction kvs arbitrary: s)
  case Nil
  then show ?case by simp
next
  case (Cons kv kvs)
  let ?s = "s\<lparr>cur_key := fst kv, cur_value := snd kv\<rparr>"
  show ?case
  proof (cases "wt_bulk_insert env ?s")
    case (Inl f)
    with Cons.prems show ?thesis by simp
  next
    case (Inr p)
    obtain r1 s1 where p: "p = (r1, s1)" by (cases p)
    from bulk_insert_flags [OF Inr [unfolded p]]
    have fr: "btree_flags s1 = btree_flags s \<and> btree_type s1 = btree_type s \<and>
         page_type s1 = page_type s \<and> ipp s1 = ipp s" by simp
    show ?thesis
    proof (cases "r1 = 0")
      case True
      with Cons.prems Inr p have "bulk_inserts env kvs s1 = Inr (r, s')" by simp
      from Cons.IH [OF this] fr show ?thesis by simp
    next
      case False
      with Cons.prems Inr p fr show ?thesis by auto
    qed
  qed
qed

subsection \<open>One insert of a column load\<close>

lemma col_page_zero:
  assumes "wt_bulk_col_page env s = Inr (0, s')"
  shows "\<exists>pg. reconciled s' = reconciled s @ [(pg, 0)] \<and>
           u pg = U_bulk_upd (recno s) (upd_base s) \<and> pg_flags pg = {WT_PAGE_BULK_LOAD} \<and>
           pg_type pg = page_type s \<and> parent_ref pg = Ref_slot (cref_addr s') (ref_next s)"
    and "recno s' = recno s + ins_cnt s" and "updp s' = Link_base" and "ins_cnt s' = 0"
    and "ref_next s' = Suc (ref_next s)" and "cref s' = (cref s)(ref_next s := recno s)"
    and "ref_entries s' = (if ref_next s = ref_entries s then ref_entries s + 1000 else ref_entries s)"
    and "ref_next s < ref_entries s'" and "upd_base s' = upd_base s"
  using assms
  by (auto simp: wt_bulk_col_page_def ext_defs Let_def page_zero_def split: if_splits prod.splits)

lemma col_page_ok:
  assumes "all_ok env" and "ref_next s \<le> ref_entries s"
  shows "\<exists>s'. wt_bulk_col_page env s = Inr (0, s')"
  using assms
  by (auto simp: all_ok_def wt_bulk_col_page_def ext_defs Let_def split: if_splits prod.splits)

lemma bulk_col_unfold:
  assumes "updp s \<noteq> Link_null" and "ext_ret env (calls s) = 0"
  shows "wt_bulk_col env s =
     (if Suc (ins_cnt s) = ipp s then
        (case wt_bulk_col_page env (col_linked s) of
           Inl f \<Rightarrow> Inl f
         | Inr (ret, s5) \<Rightarrow>
             if ret \<noteq> 0 then Inr (ret, wt_sb_decrement s5) else Inr (0, s5))
      else Inr (0, col_linked s))"
  using assms
  by (cases "updp s")
     (simp_all add: wt_bulk_col_def ext_defs link_store_def Let_def col_linked_def active_upd_def)

lemma bulk_col_zero_pre:
  assumes "wt_bulk_col env s = Inr (0, s')"
  shows "updp s \<noteq> Link_null \<and> ext_ret env (calls s) = 0"
  using assms
  by (cases "updp s")
     (auto simp: wt_bulk_col_def ext_defs link_store_def Let_def split: if_splits)

lemma bulk_insert_col:
  assumes "is_col_leaf (page_type s)"
  shows "wt_bulk_insert env s = Inr (0, s') \<longleftrightarrow>
           (\<exists>t. wt_bulk_col env s = Inr (0, t) \<and> s' = stat_incr_items_inserted t)"
  using assms
  by (auto simp: wt_bulk_insert_def split: sum.splits prod.splits if_splits)

lemma bulk_col_step_keep:
  assumes "wt_bulk_col env s = Inr (0, t)" and "Suc (ins_cnt s) \<noteq> ipp s"
  shows "t = col_linked s"
  using assms bulk_col_zero_pre [OF assms(1)] by (simp add: bulk_col_unfold)

lemma bulk_col_step_flush:
  assumes "wt_bulk_col env s = Inr (0, t)" and "Suc (ins_cnt s) = ipp s"
  shows "wt_bulk_col_page env (col_linked s) = Inr (0, t)"
  using assms bulk_col_zero_pre [OF assms(1)]
  by (auto simp: bulk_col_unfold split: sum.splits prod.splits if_splits)

lemma chunk_slots_le:
  "re = 1000 * ((n + 999) div 1000) \<Longrightarrow> n \<le> (re::nat)"
  by linarith

lemma chunk_slots_next:
  "re = 1000 * ((n + 999) div 1000) \<Longrightarrow>
     (if n = re then re + 1000 else re) = 1000 * ((Suc n + 999) div 1000)"
proof -
  assume re: "re = 1000 * ((n + 999) div 1000)"
  define q where "q = (n + 999) div 1000"
  have lo: "1000 * q \<le> n + 999" and hi: "n + 999 < 1000 * q + 1000"
    unfolding q_def by linarith+
  show ?thesis
  proof (cases "n = re")
    case True
    then have "n = 1000 * q" using re q_def by simp
    then have "(Suc n + 999) div 1000 = Suc q" by simp
    with True re q_def show ?thesis by simp
  next
    case False
    with re q_def lo hi have "n < 1000 * q" by linarith
    with lo hi have "(Suc n + 999) div 1000 = q"
      by (intro div_nat_eqI) simp_all
    with False re q_def show ?thesis by simp
  qed
qed

lemma length_concat_const:
  "list_all (\<lambda>e. length (f e) = k) xs \<Longrightarrow> length (concat (map f xs)) = length xs * k"
  by (induction xs) auto

lemma col_inv_step:
  assumes inv: "col_inv h s"
    and run: "wt_bulk_insert env (s\<lparr>cur_key := k, cur_value := v\<rparr>) = Inr (0, s')"
  shows "col_inv (h @ [v]) s'"
proof -
  let ?s = "s\<lparr>cur_key := k, cur_value := v\<rparr>"
  from inv have leaf: "is_col_leaf (page_type ?s)" by (simp add: col_inv_def)
  from run obtain t where t: "wt_bulk_col env ?s = Inr (0, t)"
    and s': "s' = stat_incr_items_inserted t"
    using bulk_insert_col [OF leaf] by blast
  have au: "active_upd ?s = active_upd s" by (simp add: active_upd_def)
  show ?thesis
  proof (cases "Suc (ins_cnt s) = ipp s")
    case False
    with t have "t = col_linked ?s" using bulk_col_step_keep [of env ?s t] by simp
    with inv False s' show ?thesis
      by (auto simp: col_inv_def col_linked_def stat_incr_items_inserted_def active_upd_def)
  next
    case True
    let ?l = "col_linked ?s"
    from t True have pg: "wt_bulk_col_page env ?l = Inr (0, t)"
      using bulk_col_step_flush [of env ?s t] by simp
    note z = col_page_zero [OF pg]
    note fr = col_page_frame [OF pg]
    from z(1) obtain pg where ledger: "reconciled t = reconciled s @ [(pg, 0)]"
      and body: "u pg = U_bulk_upd (recno s) (active_upd s @ [v])"
      and fl: "pg_flags pg = {WT_PAGE_BULK_LOAD}"
      by (auto simp: col_linked_def au)
    have n: "ref_next s = length (reconciled s)" using inv by (simp add: col_inv_def)
    have rn: "recno s = Suc (length (reconciled s) * ipp s)" using inv by (simp add: col_inv_def)
    have len: "length (active_upd s) = ins_cnt s" using inv by (simp add: col_inv_def)
    have c1: "is_col_leaf (page_type t) \<and> 0 < ipp t \<and> ipp t = ipp s"
      using fr inv by (simp add: col_linked_def col_inv_def)
    have c2: "updp t = Link_base \<and> ins_cnt t = 0 \<and> active_upd t = []"
      using z by (simp add: active_upd_def)
    have c3: "list_all (\<lambda>e. snd e = 0 \<and> pg_flags (fst e) = {WT_PAGE_BULK_LOAD} \<and>
                  length (body_upds (u (fst e))) = ipp s \<and> body_ins (u (fst e)) = [])
               (reconciled t)"
      using inv ledger body fl len True by (simp add: col_inv_def)
    have c4: "concat (map (\<lambda>e. body_upds (u (fst e))) (reconciled t)) = h @ [v]"
      using inv ledger body True len
      by (cases "updp s") (simp_all add: col_inv_def active_upd_def)
    have c5: "recno t = Suc (length (reconciled t) * ipp s)"
      using z(2) rn ledger True by (simp add: col_linked_def)
    have c6: "ref_next t = length (reconciled t)"
      using z(5) n ledger by (simp add: col_linked_def)
    have c7: "\<forall>i<length (reconciled t).
        body_recno (u (fst (reconciled t ! i))) = Suc (i * ipp s) \<and>
        cref t i = Suc (i * ipp s)"
    proof (intro allI impI)
      fix i assume i: "i < length (reconciled t)"
      show "body_recno (u (fst (reconciled t ! i))) = Suc (i * ipp s) \<and>
            cref t i = Suc (i * ipp s)"
      proof (cases "i < length (reconciled s)")
        case True
        with inv have "body_recno (u (fst (reconciled s ! i))) = Suc (i * ipp s)"
            "cref s i = Suc (i * ipp s)"
          by (simp_all add: col_inv_def)
        with True z(6) n ledger show ?thesis by (simp add: nth_append col_linked_def)
      next
        case False
        with i ledger have "i = length (reconciled s)" by simp
        with z(6) n ledger body rn show ?thesis by (simp add: nth_append col_linked_def)
      qed
    qed
    have c8: "ref_entries t = 1000 * ((ref_next t + 999) div 1000)"
    proof -
      from inv have "ref_entries s = 1000 * ((ref_next s + 999) div 1000)"
        by (simp add: col_inv_def)
      from chunk_slots_next [OF this] z(7) z(5) show ?thesis
        by (simp add: col_linked_def split: if_splits)
    qed
    from c1 c2 c3 c4 c5 c6 c7 c8 s' show ?thesis
      by (simp add: col_inv_def stat_incr_items_inserted_def active_upd_def)
  qed
qed

lemma col_insert_ok:
  assumes inv: "col_inv h s" and ok: "all_ok env"
  shows "\<exists>s'. wt_bulk_insert env (s\<lparr>cur_key := k, cur_value := v\<rparr>) = Inr (0, s')"
proof -
  let ?s = "s\<lparr>cur_key := k, cur_value := v\<rparr>"
  from inv have leaf: "is_col_leaf (page_type ?s)" and nn: "updp ?s \<noteq> Link_null"
    by (simp_all add: col_inv_def)
  from ok have e: "ext_ret env (calls ?s) = 0" by (simp add: all_ok_def)
  from inv have "ref_next s \<le> ref_entries s" using chunk_slots_le by (simp add: col_inv_def)
  then have "ref_next (col_linked ?s) \<le> ref_entries (col_linked ?s)"
    by (simp add: col_linked_def)
  from col_page_ok [OF ok this] obtain t where
    "wt_bulk_col_page env (col_linked ?s) = Inr (0, t)" by blast
  then have "\<exists>t. wt_bulk_col env ?s = Inr (0, t)"
    by (simp add: bulk_col_unfold [OF nn e])
  then show ?thesis using bulk_insert_col [OF leaf] by blast
qed

lemma col_begun_inv: "col_begun s \<Longrightarrow> col_inv [] s"
  by (simp add: col_begun_def col_inv_def active_upd_def)

lemma col_inv_inserts:
  "col_inv h s \<Longrightarrow> bulk_inserts env kvs s = Inr (0, s') \<Longrightarrow> col_inv (h @ map snd kvs) s'"
proof (induction kvs arbitrary: h s)
  case Nil
  then show ?case by simp
next
  case (Cons kv kvs)
  let ?s = "s\<lparr>cur_key := fst kv, cur_value := snd kv\<rparr>"
  from Cons.prems(2) obtain s1 where
    one: "wt_bulk_insert env ?s = Inr (0, s1)" and rest: "bulk_inserts env kvs s1 = Inr (0, s')"
    by (auto split: sum.splits prod.splits if_splits)
  from col_inv_step [OF Cons.prems(1) one] have "col_inv (h @ [snd kv]) s1" .
  from Cons.IH [OF this rest] show ?case by simp
qed

lemma col_inserts_ok:
  "col_inv h s \<Longrightarrow> all_ok env \<Longrightarrow> \<exists>s'. bulk_inserts env kvs s = Inr (0, s')"
proof (induction kvs arbitrary: h s)
  case Nil
  then show ?case by simp
next
  case (Cons kv kvs)
  let ?s = "s\<lparr>cur_key := fst kv, cur_value := snd kv\<rparr>"
  from col_insert_ok [OF Cons.prems] obtain s1 where
    one: "wt_bulk_insert env ?s = Inr (0, s1)" by blast
  from col_inv_step [OF Cons.prems(1) one] have "col_inv (h @ [snd kv]) s1" .
  from Cons.IH [OF this Cons.prems(2)] one show ?case by simp
qed

subsection \<open>The claims about begin, end and failed allocations\<close>

lemma bulk_init_ok:
  assumes "ref_page (root_page s) = Some p" and "WT_PAGE_INITIAL_EMPTY \<in> pg_flags p"
  shows "\<exists>s'. wt_bulk_init env s = Inr (0, s') \<and>
           calls s' = calls s \<and> sb_allocs s' = sb_allocs s \<and> page_allocs s' = page_allocs s \<and>
           ref_page (root_page s') = None \<and> freed_pages s' = freed_pages s @ [p] \<and>
           ref_state (root_page s') = WT_REF_DISK \<and>
           WT_BTREE_NO_EVICTION \<in> btree_flags s' \<and> ipp s' = 50000"
  using assms by (cases "btree_type s") (simp_all add: wt_bulk_init_def Let_def)

text \<open>
  Claim C10. On a tree in the initial-empty state \<^verbatim>\<open>__wt_bulk_init\<close> returns 0
  whatever the environment does: it makes no fallible call (the counters of calls and of
  allocations do not move). It frees the placeholder root page, marks the root reference
  as on disk, sets \<^verbatim>\<open>WT_BTREE_NO_EVICTION\<close> and sets the capacity to 50000, which is
  positive.
\<close>
theorem bulk_init_initial_empty:
  assumes "ref_page (root_page s) = Some p" and "WT_PAGE_INITIAL_EMPTY \<in> pg_flags p"
  shows "\<exists>s'. wt_bulk_init env s = Inr (0, s') \<and>
           calls s' = calls s \<and> sb_allocs s' = sb_allocs s \<and> page_allocs s' = page_allocs s \<and>
           ref_page (root_page s') = None \<and> freed_pages s' = freed_pages s @ [p] \<and>
           ref_state (root_page s') = WT_REF_DISK \<and>
           WT_BTREE_NO_EVICTION \<in> btree_flags s' \<and>
           ipp s' = 50000 \<and> 0 < ipp s'"
  using bulk_init_ok [OF assms, of env] by auto

theorem bulk_init_initial_empty_witness:
  "ref_page (root_page (new_cursor BTREE_ROW)) = Some (page_zero\<lparr>pg_flags := {WT_PAGE_INITIAL_EMPTY}\<rparr>) \<and>
   WT_PAGE_INITIAL_EMPTY \<in> pg_flags (page_zero\<lparr>pg_flags := {WT_PAGE_INITIAL_EMPTY}\<rparr>) \<and>
   (\<exists>s'. wt_bulk_init (env_fail_at UNIV) (new_cursor BTREE_ROW) = Inr (0, s') \<and> ipp s' = 50000 \<and>
      WT_BTREE_NO_EVICTION \<in> btree_flags s' \<and> ref_page (root_page s') = None)"
proof -
  have h1: "ref_page (root_page (new_cursor BTREE_ROW)) =
      Some (page_zero\<lparr>pg_flags := {WT_PAGE_INITIAL_EMPTY}\<rparr>)"
    by (simp add: new_cursor_def)
  have h2: "WT_PAGE_INITIAL_EMPTY \<in> pg_flags (page_zero\<lparr>pg_flags := {WT_PAGE_INITIAL_EMPTY}\<rparr>)"
    by simp
  from bulk_init_initial_empty [OF h1 h2, of "env_fail_at UNIV"] h1 h2
  show ?thesis by blast
qed

text \<open>
  Claim C3, amended. On a tree whose root page is in memory and does not carry
  \<^verbatim>\<open>WT_PAGE_INITIAL_EMPTY\<close>, \<^verbatim>\<open>__wt_bulk_init\<close> returns \<^verbatim>\<open>WT_ERROR\<close> and the
  state is the one it was given but for the reported message: no page is freed, no flag
  is set, no field of the cursor is initialised. Once the root is an initial-empty page
  again, the call succeeds. Nothing is said of a tree whose root page is not in memory.
\<close>

theorem bulk_init_not_empty:
  assumes "ref_page (root_page s) = Some p" and "WT_PAGE_INITIAL_EMPTY \<notin> pg_flags p"
  shows "wt_bulk_init env s = Inr (WT_ERROR env, s\<lparr>messages := messages s @ [bulk_load_msg]\<rparr>) \<and>
         (\<forall>q::wt_page. WT_PAGE_INITIAL_EMPTY \<in> pg_flags q \<longrightarrow>
            (\<exists>t. wt_bulk_init env
                    (s\<lparr>messages := messages s @ [bulk_load_msg],
                       root_page := (root_page s)\<lparr>ref_page := Some q\<rparr>\<rparr>) = Inr (0, t)))"
proof (intro conjI allI impI)
  show "wt_bulk_init env s = Inr (WT_ERROR env, s\<lparr>messages := messages s @ [bulk_load_msg]\<rparr>)"
    using assms by (simp add: wt_bulk_init_def)
next
  fix q :: wt_page assume q: "WT_PAGE_INITIAL_EMPTY \<in> pg_flags q"
  let ?s = "s\<lparr>messages := messages s @ [bulk_load_msg],
               root_page := (root_page s)\<lparr>ref_page := Some q\<rparr>\<rparr>"
  have "ref_page (root_page ?s) = Some q" by simp
  from bulk_init_ok [OF this q, of env]
  show "\<exists>t. wt_bulk_init env ?s = Inr (0, t)" by blast
qed

theorem bulk_init_not_empty_witness:
  "ref_page (root_page ((new_cursor BTREE_ROW)\<lparr>root_page := (root_page (new_cursor BTREE_ROW))\<lparr>ref_page := Some page_zero\<rparr>\<rparr>)) = Some page_zero \<and>
   WT_PAGE_INITIAL_EMPTY \<notin> pg_flags page_zero \<and>
   wt_bulk_init (env_fail_at {})
     ((new_cursor BTREE_ROW)\<lparr>root_page := (root_page (new_cursor BTREE_ROW))\<lparr>ref_page := Some page_zero\<rparr>\<rparr>) =
     Inr (- 1, (new_cursor BTREE_ROW)\<lparr>root_page := (root_page (new_cursor BTREE_ROW))\<lparr>ref_page := Some page_zero\<rparr>,
                 messages := [bulk_load_msg]\<rparr>)"
proof -
  let ?s = "(new_cursor BTREE_ROW)\<lparr>root_page := (root_page (new_cursor BTREE_ROW))\<lparr>ref_page := Some page_zero\<rparr>\<rparr>"
  have h1: "ref_page (root_page ?s) = Some page_zero" by simp
  have h2: "WT_PAGE_INITIAL_EMPTY \<notin> pg_flags page_zero" by (simp add: page_zero_def)
  from bulk_init_not_empty [OF h1 h2, of "env_fail_at {}"] h1 h2
  show ?thesis by (simp add: env_fail_at_def new_cursor_def)
qed

text \<open>
  Claim C3 as stated fails on a tree that has no root page in memory. A successful
  \<^verbatim>\<open>__wt_bulk_init\<close> frees the placeholder and leaves \<^verbatim>\<open>root_page.page\<close> cleared, so
  the tree is no longer in the initial-empty state; a second \<^verbatim>\<open>__wt_bulk_init\<close> on it
  reads the flags through that pointer and returns no error code at all.
\<close>

theorem bulk_init_not_empty_counterexample:
  "wt_bulk_init (env_fail_at {}) (new_cursor BTREE_ROW) = Inr (0, started BTREE_ROW 50000) \<and>
   ref_page (root_page (started BTREE_ROW 50000)) = None \<and>
   wt_bulk_init (env_fail_at {}) (started BTREE_ROW 50000) = Inl Null_deref"
  by (simp add: example_defs run_defs)

lemma row_fail_key:
  assumes "ext_ret env (calls s) \<noteq> 0"
  shows "wt_bulk_row env s = Inr (ext_ret env (calls s), s\<lparr>calls := Suc (calls s)\<rparr>)"
  using assms by (simp add: wt_bulk_row_def ext_defs)

lemma row_fail_upd:
  assumes "ext_ret env (calls s) = 0" "ext_ret env (Suc (calls s)) \<noteq> 0"
  shows "wt_bulk_row env s = Inr (ext_ret env (Suc (calls s)),
     s\<lparr>calls := Suc (Suc (calls s)), sb_allocs := Suc (sb_allocs s), sb_frees := Suc (sb_frees s)\<rparr>)"
  using assms by (simp add: wt_bulk_row_def ext_defs wt_bulk_row_err_def)

text \<open>
  Claim C6. When \<^verbatim>\<open>__wt_row_insert_alloc\<close> or \<^verbatim>\<open>__wt_update_alloc\<close> fails in
  \<^verbatim>\<open>__wt_bulk_row\<close>, the call returns the code of the failed allocation, which is not 0;
  only the ledger of calls and allocations differs from the state before: the record
  list, its link and \<^verbatim>\<open>ins_cnt\<close> are as they were, and every allocation made for the
  record was given back (allocations minus releases is unchanged).
\<close>
theorem bulk_row_alloc_failure:
  assumes "ext_ret env (calls s) \<noteq> 0 \<or> ext_ret env (Suc (calls s)) \<noteq> 0"
  shows "\<exists>r s'. wt_bulk_row env s = Inr (r, s') \<and> r \<noteq> 0 \<and>
           r = (if ext_ret env (calls s) \<noteq> 0 then ext_ret env (calls s)
                else ext_ret env (Suc (calls s))) \<and>
           s' = s\<lparr>calls := calls s', sb_allocs := sb_allocs s', sb_frees := sb_frees s'\<rparr> \<and>
           ins_base s' = ins_base s \<and> insp s' = insp s \<and> ins_cnt s' = ins_cnt s \<and>
           sb_allocs s' + sb_frees s = sb_allocs s + sb_frees s' \<and>
           (page_type s = WT_PAGE_ROW_LEAF \<longrightarrow> wt_bulk_insert env s = Inr (r, s'))"
proof (cases "ext_ret env (calls s) \<noteq> 0")
  case True
  from row_fail_key [OF True] True show ?thesis
    by (simp add: wt_bulk_insert_def is_col_leaf_def)
next
  case False
  with assms have "ext_ret env (calls s) = 0" "ext_ret env (Suc (calls s)) \<noteq> 0" by auto
  from row_fail_upd [OF this] this show ?thesis
    by (simp add: wt_bulk_insert_def is_col_leaf_def)
qed

theorem bulk_row_alloc_failure_witness:
  "ext_ret (env_fail_at {1}) (Suc (calls (started BTREE_ROW 2))) \<noteq> 0 \<and>
   (\<exists>s'. wt_bulk_row (env_fail_at {1}) (started BTREE_ROW 2) = Inr (12, s') \<and>
      ins_base s' = ins_base (started BTREE_ROW 2) \<and> ins_cnt s' = 0 \<and>
      sb_allocs s' = 1 \<and> sb_frees s' = 1)"
proof -
  let ?e = "env_fail_at {1}" and ?s = "started BTREE_ROW 2"
  have c: "calls ?s = 0" "ins_cnt ?s = 0" "sb_allocs ?s = 0" "sb_frees ?s = 0"
    by (simp_all add: example_defs run_defs)
  have h: "ext_ret ?e (Suc (calls ?s)) \<noteq> 0" "ext_ret ?e (calls ?s) = 0"
    unfolding c by (simp_all add: env_fail_at_def)
  from h(1) have "ext_ret ?e (calls ?s) \<noteq> 0 \<or> ext_ret ?e (Suc (calls ?s)) \<noteq> 0" ..
  from bulk_row_alloc_failure [OF this] obtain r s' where
    r: "wt_bulk_row ?e ?s = Inr (r, s')"
      "r = (if ext_ret ?e (calls ?s) \<noteq> 0 then ext_ret ?e (calls ?s)
            else ext_ret ?e (Suc (calls ?s)))"
      "ins_base s' = ins_base ?s" "ins_cnt s' = ins_cnt ?s"
      "sb_allocs s' + sb_frees ?s = sb_allocs ?s + sb_frees s'"
    by blast
  from r(2) h c have r12: "r = 12" by (simp add: env_fail_at_def)
  have "sb_allocs s' = 1 \<and> sb_frees s' = 1"
    using r(1) by (auto simp: example_defs run_defs)
  with r r12 c h show ?thesis by auto
qed

lemma end_flush_page_type:
  "wt_bulk_end_flush env s = Inr (r, s1) \<Longrightarrow> page_type s1 = page_type s"
  using end_flush_frame by blast

text \<open>
  Claim C4. With a leaf page type, \<^verbatim>\<open>__wt_bulk_end\<close> flushes the last page if and only
  if \<^verbatim>\<open>ins_cnt\<close> is not 0. When the flush and the allocation of the page succeed it
  builds one internal page with \<^verbatim>\<open>entries = ref_next\<close>, of type
  \<^verbatim>\<open>WT_PAGE_COL_INT\<close> with \<^verbatim>\<open>recno = 1\<close> for a column layout and
  \<^verbatim>\<open>WT_PAGE_ROW_INT\<close> for the row layout, installs it in \<^verbatim>\<open>root_page\<close>, hands it to
  reconciliation and returns what reconciliation returned. It returns 0 exactly when
  that reconciliation is reached and returns 0. Without any insert the root has no
  entries and nothing faults.
\<close>
theorem bulk_end_root:
  assumes leaf: "is_col_leaf (page_type s) \<or> page_type s = WT_PAGE_ROW_LEAF"
  shows "wt_bulk_end_flush env s =
           (if ins_cnt s = 0 then Inr (0, s)
            else if is_col_leaf (page_type s) then wt_bulk_col_page env s
            else wt_bulk_row_page env s) \<and>
         (\<forall>s1. wt_bulk_end_flush env s = Inr (0, s1) \<and> ext_ret env (calls s1) = 0 \<longrightarrow>
            wt_bulk_end env s =
              Inr (ext_ret env (Suc (calls s1)),
                   s1\<lparr>calls := Suc (Suc (calls s1)), page_allocs := Suc (page_allocs s1),
                      root_page := \<lparr>ref_state = WT_REF_MEM, ref_addr = WT_ADDR_INVALID,
                         ref_size = 0, ref_page = Some (root_of s1)\<rparr>,
                      reconciled :=
                        reconciled s1 @ [(root_of s1, ext_ret env (Suc (calls s1)))]\<rparr>) \<and>
            root_of s1 =
              page_zero\<lparr>parent_ref := Ref_root, modified := True, entries := ref_next s1,
                 u := (if is_col_leaf (page_type s) then U_col_int 1 (cref_addr s1)
                       else U_row_int (rref_addr s1)),
                 pg_type := (if is_col_leaf (page_type s) then WT_PAGE_COL_INT
                             else WT_PAGE_ROW_INT)\<rparr>) \<and>
         (\<forall>r s'. wt_bulk_end env s = Inr (r, s') \<longrightarrow>
            (r = 0 \<longleftrightarrow>
               (\<exists>s1. wt_bulk_end_flush env s = Inr (0, s1) \<and> ext_ret env (calls s1) = 0 \<and>
                     ext_ret env (Suc (calls s1)) = 0))) \<and>
         (ins_cnt s = 0 \<and> ref_next s = 0 \<longrightarrow>
            (\<exists>r s'. wt_bulk_end env s = Inr (r, s') \<and> ref_next s' = 0 \<and>
               (r = 0 \<longrightarrow> (\<exists>pg. ref_page (root_page s') = Some pg \<and> entries pg = 0))))"
proof (intro conjI allI impI)
  show "wt_bulk_end_flush env s =
           (if ins_cnt s = 0 then Inr (0, s)
            else if is_col_leaf (page_type s) then wt_bulk_col_page env s
            else wt_bulk_row_page env s)"
    using leaf by (auto simp: wt_bulk_end_flush_def)
next
  fix s1 assume a: "wt_bulk_end_flush env s = Inr (0, s1) \<and> ext_ret env (calls s1) = 0"
  then have pt: "page_type s1 = page_type s" using end_flush_page_type by blast
  from a have fl: "wt_bulk_end_flush env s = Inr (0, s1)" by simp
  show "wt_bulk_end env s =
              Inr (ext_ret env (Suc (calls s1)),
                   s1\<lparr>calls := Suc (Suc (calls s1)), page_allocs := Suc (page_allocs s1),
                      root_page := \<lparr>ref_state = WT_REF_MEM, ref_addr = WT_ADDR_INVALID,
                         ref_size = 0, ref_page = Some (root_of s1)\<rparr>,
                      reconciled :=
                        reconciled s1 @ [(root_of s1, ext_ret env (Suc (calls s1)))]\<rparr>)"
    unfolding bulk_end_after_flush [OF fl] using a leaf pt by simp
  show "root_of s1 =
              page_zero\<lparr>parent_ref := Ref_root, modified := True, entries := ref_next s1,
                 u := (if is_col_leaf (page_type s) then U_col_int 1 (cref_addr s1)
                       else U_row_int (rref_addr s1)),
                 pg_type := (if is_col_leaf (page_type s) then WT_PAGE_COL_INT
                             else WT_PAGE_ROW_INT)\<rparr>"
    using pt by (simp add: root_of_def page_zero_def Let_def)
next
  fix r s' assume e: "wt_bulk_end env s = Inr (r, s')"
  show "r = 0 \<longleftrightarrow>
          (\<exists>s1. wt_bulk_end_flush env s = Inr (0, s1) \<and> ext_ret env (calls s1) = 0 \<and>
                ext_ret env (Suc (calls s1)) = 0)"
  proof (cases "wt_bulk_end_flush env s")
    case (Inl f)
    with e show ?thesis by (simp add: wt_bulk_end_def)
  next
    case (Inr p)
    obtain r1 s1 where p: "p = (r1, s1)" by (cases p)
    show ?thesis
    proof (cases "r1 = 0")
      case True
      with Inr p have fl: "wt_bulk_end_flush env s = Inr (0, s1)" by simp
      have pt: "page_type s1 = page_type s" using end_flush_page_type [OF fl] .
      from e leaf pt show ?thesis
        unfolding bulk_end_after_flush [OF fl] fl by (auto split: if_splits)
    next
      case False
      with Inr p e bulk_end_flush_failed [of env s r1 s1] show ?thesis by auto
    qed
  qed
next
  assume z: "ins_cnt s = 0 \<and> ref_next s = 0"
  then have fl: "wt_bulk_end_flush env s = Inr (0, s)" by (simp add: wt_bulk_end_flush_def)
  show "\<exists>r s'. wt_bulk_end env s = Inr (r, s') \<and> ref_next s' = 0 \<and>
               (r = 0 \<longrightarrow> (\<exists>pg. ref_page (root_page s') = Some pg \<and> entries pg = 0))"
    unfolding bulk_end_after_flush [OF fl] using z leaf
    by (simp add: root_of_def page_zero_def Let_def)
qed

theorem bulk_end_root_witness:
  "is_col_leaf (page_type (started BTREE_COL_VAR 3)) \<and>
   ins_cnt (started BTREE_COL_VAR 3) = 0 \<and> ref_next (started BTREE_COL_VAR 3) = 0 \<and>
   wt_bulk_end_flush (env_fail_at {}) (started BTREE_COL_VAR 3) =
     Inr (0, started BTREE_COL_VAR 3) \<and>
   (\<exists>s'. wt_bulk_end (env_fail_at {}) (started BTREE_COL_VAR 3) = Inr (0, s') \<and>
      ref_page (root_page s') = Some (root_of (started BTREE_COL_VAR 3)) \<and>
      entries (root_of (started BTREE_COL_VAR 3)) = 0 \<and>
      pg_type (root_of (started BTREE_COL_VAR 3)) = WT_PAGE_COL_INT \<and>
      u (root_of (started BTREE_COL_VAR 3)) = U_col_int 1 0)"
proof -
  let ?e = "env_fail_at {}" and ?s = "started BTREE_COL_VAR 3"
  have c: "is_col_leaf (page_type ?s)" "ins_cnt ?s = 0" "ref_next ?s = 0" "cref_addr ?s = 0"
    by (simp_all add: example_defs run_defs)
  have e: "\<And>n. ext_ret ?e n = 0" by (simp add: env_fail_at_def)
  from c(1) have leaf: "is_col_leaf (page_type ?s) \<or> page_type ?s = WT_PAGE_ROW_LEAF" ..
  note t = bulk_end_root [OF leaf, of ?e]
  from t c have fl: "wt_bulk_end_flush ?e ?s = Inr (0, ?s)" by simp
  from t fl e c show ?thesis by simp
qed

lemma bulk_init_zero_flag:
  assumes "WT_ERROR env \<noteq> 0" and "wt_bulk_init env s = Inr (0, s1)"
  shows "WT_BTREE_NO_EVICTION \<in> btree_flags s1"
  using assms
  by (cases "btree_type s")
     (auto simp: wt_bulk_init_def Let_def split: option.splits if_splits)

text \<open>
  Claim C9. A \<^verbatim>\<open>__wt_bulk_init\<close> that returns 0 leaves \<^verbatim>\<open>WT_BTREE_NO_EVICTION\<close> set
  (\<^verbatim>\<open>WT_ERROR\<close> being an error code, it is not 0);
  \<^verbatim>\<open>__wt_bulk_end\<close> returns the tree's flags, type and statistics, the cursor's key and
  value, and the ledgers of freed pages and record allocations as it found them, on
  every path; so the flag is still set after begin, any inserts and end.
\<close>
theorem no_eviction_kept:
  assumes "WT_ERROR env \<noteq> 0"
  shows "(\<forall>s1. wt_bulk_init env s = Inr (0, s1) \<longrightarrow> WT_BTREE_NO_EVICTION \<in> btree_flags s1) \<and>
         (\<forall>r t'. wt_bulk_end env t = Inr (r, t') \<longrightarrow>
            btree_flags t' = btree_flags t \<and> btree_type t' = btree_type t \<and>
            items_inserted t' = items_inserted t \<and> cur_key t' = cur_key t \<and>
            cur_value t' = cur_value t \<and> freed_pages t' = freed_pages t \<and>
            sb_allocs t' = sb_allocs t \<and> sb_frees t' = sb_frees t) \<and>
         (\<forall>s1 kvs r2 s2 r3 s3.
            wt_bulk_init env s = Inr (0, s1) \<and> bulk_inserts env kvs s1 = Inr (r2, s2) \<and>
            wt_bulk_end env s2 = Inr (r3, s3) \<longrightarrow>
            WT_BTREE_NO_EVICTION \<in> btree_flags s3)"
proof -
  have p1: "\<forall>s1. wt_bulk_init env s = Inr (0, s1) \<longrightarrow> WT_BTREE_NO_EVICTION \<in> btree_flags s1"
    using assms bulk_init_zero_flag by blast
  have p2: "\<forall>r t'. wt_bulk_end env t = Inr (r, t') \<longrightarrow>
            btree_flags t' = btree_flags t \<and> btree_type t' = btree_type t \<and>
            items_inserted t' = items_inserted t \<and> cur_key t' = cur_key t \<and>
            cur_value t' = cur_value t \<and> freed_pages t' = freed_pages t \<and>
            sb_allocs t' = sb_allocs t \<and> sb_frees t' = sb_frees t"
  proof (intro allI impI)
    fix r t' assume "wt_bulk_end env t = Inr (r, t')"
    from bulk_end_frame [OF this]
    show "btree_flags t' = btree_flags t \<and> btree_type t' = btree_type t \<and>
            items_inserted t' = items_inserted t \<and> cur_key t' = cur_key t \<and>
            cur_value t' = cur_value t \<and> freed_pages t' = freed_pages t \<and>
            sb_allocs t' = sb_allocs t \<and> sb_frees t' = sb_frees t" by simp
  qed
  have p3: "\<forall>s1 kvs r2 s2 r3 s3.
            wt_bulk_init env s = Inr (0, s1) \<and> bulk_inserts env kvs s1 = Inr (r2, s2) \<and>
            wt_bulk_end env s2 = Inr (r3, s3) \<longrightarrow>
            WT_BTREE_NO_EVICTION \<in> btree_flags s3"
  proof (intro allI impI)
    fix s1 kvs r2 s2 r3 s3
    assume a: "wt_bulk_init env s = Inr (0, s1) \<and> bulk_inserts env kvs s1 = Inr (r2, s2) \<and>
            wt_bulk_end env s2 = Inr (r3, s3)"
    then have "WT_BTREE_NO_EVICTION \<in> btree_flags s1" using assms bulk_init_zero_flag by blast
    moreover from a have "btree_flags s2 = btree_flags s1" using bulk_inserts_flags by blast
    moreover from a have "btree_flags s3 = btree_flags s2" using bulk_end_frame by blast
    ultimately show "WT_BTREE_NO_EVICTION \<in> btree_flags s3" by simp
  qed
  from p1 p2 p3 show ?thesis by blast
qed

theorem no_eviction_kept_witness:
  "WT_ERROR (env_fail_at {}) \<noteq> 0 \<and>
   (\<exists>s1 s2 s3. wt_bulk_init (env_fail_at {}) (new_cursor BTREE_ROW) = Inr (0, s1) \<and>
      bulk_inserts (env_fail_at {}) [(''a'', ''1'')] s1 = Inr (0, s2) \<and>
      wt_bulk_end (env_fail_at {}) s2 = Inr (0, s3) \<and>
      WT_BTREE_NO_EVICTION \<in> btree_flags s3 \<and> btree_flags s3 = btree_flags s2)"
proof -
  let ?e = "env_fail_at {}"
  have w: "WT_ERROR ?e \<noteq> 0" by (simp add: env_fail_at_def)
  have "\<exists>s1 s2 s3. wt_bulk_init ?e (new_cursor BTREE_ROW) = Inr (0, s1) \<and>
      bulk_inserts ?e [(''a'', ''1'')] s1 = Inr (0, s2) \<and> wt_bulk_end ?e s2 = Inr (0, s3)"
    by (simp add: example_defs run_defs)
  then obtain s1 s2 s3 where r: "wt_bulk_init ?e (new_cursor BTREE_ROW) = Inr (0, s1)"
      "bulk_inserts ?e [(''a'', ''1'')] s1 = Inr (0, s2)" "wt_bulk_end ?e s2 = Inr (0, s3)"
    by blast
  from no_eviction_kept [OF w, of "new_cursor BTREE_ROW" s2] r
  have "WT_BTREE_NO_EVICTION \<in> btree_flags s3 \<and> btree_flags s3 = btree_flags s2" by blast
  with w r show ?thesis by blast
qed

subsection \<open>A whole column load\<close>

lemma sum_list_const:
  "list_all (\<lambda>e. f e = k) xs \<Longrightarrow> sum_list (map f xs) = length xs * (k::nat)"
  by (induction xs) auto

lemma list_all_butlast: "list_all P xs \<Longrightarrow> list_all P (butlast xs)"
  by (induction xs) auto

lemma list_all_last: "list_all P xs \<Longrightarrow> xs \<noteq> [] \<Longrightarrow> P (last xs)"
  by (induction xs) auto

lemma col_flush_done:
  assumes inv: "col_inv h s" and fl: "wt_bulk_end_flush env s = Inr (0, s1)"
  shows "leaf_ledger (ipp s) (length h) s1 \<and> col_content h (ipp s) s1 \<and>
         is_col_leaf (page_type s1)"
proof (cases "ins_cnt s = 0")
  case True
  with fl have eq: "s1 = s" by (simp add: wt_bulk_end_flush_def)
  from inv True have act: "active_upd s = []" by (simp add: col_inv_def)
  from inv have all: "list_all (\<lambda>e. body_len (u (fst e)) = ipp s) (reconciled s)"
    by (simp add: col_inv_def body_len_def list_all_iff)
  from inv act have h: "concat (map (\<lambda>e. body_upds (u (fst e))) (reconciled s)) = h"
    by (simp add: col_inv_def)
  have "sum_list (map (\<lambda>e. body_len (u (fst e))) (reconciled s)) = length (reconciled s) * ipp s"
    using sum_list_const [OF all] .
  moreover have "length h = length (reconciled s) * ipp s"
  proof -
    from inv have "list_all (\<lambda>e. length (body_upds (u (fst e))) = ipp s) (reconciled s)"
      by (simp add: col_inv_def list_all_iff)
    from length_concat_const [OF this] h show ?thesis by simp
  qed
  moreover have "reconciled s = [] \<or>
        1 \<le> body_len (u (fst (last (reconciled s)))) \<and>
        body_len (u (fst (last (reconciled s)))) \<le> ipp s"
  proof (cases "reconciled s = []")
    case False
    from list_all_last [OF all False] inv show ?thesis by (simp add: col_inv_def)
  qed simp
  ultimately have "leaf_ledger (ipp s) (length h) s"
    using inv list_all_butlast [OF all]
    by (simp add: leaf_ledger_def col_inv_def list_all_iff)
  moreover have "col_content h (ipp s) s"
    using inv h by (simp add: col_content_def col_inv_def list_all_iff)
  ultimately show ?thesis using eq inv by (simp add: col_inv_def)
next
  case False
  from inv have leaf: "is_col_leaf (page_type s)" by (simp add: col_inv_def)
  with fl False have pg: "wt_bulk_col_page env s = Inr (0, s1)"
    by (simp add: wt_bulk_end_flush_def)
  note z = col_page_zero [OF pg]
  note fr = col_page_frame [OF pg]
  from inv False have nx: "updp s = Link_next" and act: "active_upd s = upd_base s"
    and len: "length (upd_base s) = ins_cnt s"
    by (auto simp: col_inv_def active_upd_def split: if_splits)
  from z(1) obtain pg where ledger: "reconciled s1 = reconciled s @ [(pg, 0)]"
    and body: "u pg = U_bulk_upd (recno s) (upd_base s)"
    and flg: "pg_flags pg = {WT_PAGE_BULK_LOAD}"
    by auto
  from inv have all: "list_all (\<lambda>e. body_len (u (fst e)) = ipp s) (reconciled s)"
    by (simp add: col_inv_def body_len_def list_all_iff)
  from inv act have h: "concat (map (\<lambda>e. body_upds (u (fst e))) (reconciled s)) @ upd_base s = h"
    by (simp add: col_inv_def)
  have hl: "length h = length (reconciled s) * ipp s + ins_cnt s"
  proof -
    from inv have "list_all (\<lambda>e. length (body_upds (u (fst e))) = ipp s) (reconciled s)"
      by (simp add: col_inv_def list_all_iff)
    from length_concat_const [OF this] h len show ?thesis by auto
  qed
  have l1: "list_all (\<lambda>e. snd e = 0 \<and> pg_flags (fst e) = {WT_PAGE_BULK_LOAD}) (reconciled s1)"
    using inv ledger flg by (simp add: col_inv_def list_all_iff)
  have l2: "ref_next s1 = length (reconciled s1)"
    using inv ledger z(5) by (simp add: col_inv_def)
  have l3: "list_all (\<lambda>e. body_len (u (fst e)) = ipp s) (butlast (reconciled s1))"
    using all ledger by simp
  have l4: "1 \<le> body_len (u (fst (last (reconciled s1)))) \<and>
        body_len (u (fst (last (reconciled s1)))) \<le> ipp s"
  proof -
    from False inv have "0 < ins_cnt s" "ins_cnt s < ipp s" by (simp_all add: col_inv_def)
    with ledger body len show ?thesis by (simp add: body_len_def)
  qed
  have l5: "sum_list (map (\<lambda>e. body_len (u (fst e))) (reconciled s1)) = length h"
    using sum_list_const [OF all] ledger body len hl by (simp add: body_len_def)
  have l6: "ref_entries s1 = 1000 * ((ref_next s1 + 999) div 1000)"
  proof -
    from inv have "ref_entries s = 1000 * ((ref_next s + 999) div 1000)"
      by (simp add: col_inv_def)
    from chunk_slots_next [OF this] z(7) z(5) show ?thesis by (simp split: if_splits)
  qed
  have c0: "list_all (\<lambda>e. body_ins (u (fst e)) = []) (reconciled s1)"
    using inv ledger body by (simp add: col_inv_def list_all_iff)
  have c1: "concat (map (\<lambda>e. body_upds (u (fst e))) (reconciled s1)) = h"
    using h ledger body by simp
  have c2: "\<forall>i<length (reconciled s1).
        body_recno (u (fst (reconciled s1 ! i))) = Suc (i * ipp s) \<and>
        cref s1 i = Suc (i * ipp s)"
  proof (intro allI impI)
    fix i assume i: "i < length (reconciled s1)"
    have n: "ref_next s = length (reconciled s)" using inv by (simp add: col_inv_def)
    have rn: "recno s = Suc (length (reconciled s) * ipp s)" using inv by (simp add: col_inv_def)
    show "body_recno (u (fst (reconciled s1 ! i))) = Suc (i * ipp s) \<and>
          cref s1 i = Suc (i * ipp s)"
    proof (cases "i < length (reconciled s)")
      case True
      with inv have "body_recno (u (fst (reconciled s ! i))) = Suc (i * ipp s)"
          "cref s i = Suc (i * ipp s)"
        by (simp_all add: col_inv_def)
      with True z(6) n ledger show ?thesis by (simp add: nth_append)
    next
      case False
      with i ledger have "i = length (reconciled s)" by simp
      with z(6) n ledger body rn show ?thesis by (simp add: nth_append)
    qed
  qed
  from l1 l2 l3 l4 l5 l6 c0 c1 c2 fr leaf show ?thesis
    by (simp add: leaf_ledger_def col_content_def)
qed

lemma bulk_end_zero:
  assumes run: "wt_bulk_end env s = Inr (0, s')"
    and leaf: "is_col_leaf (page_type s) \<or> page_type s = WT_PAGE_ROW_LEAF"
  shows "\<exists>s1. wt_bulk_end_flush env s = Inr (0, s1) \<and>
           s' = s1\<lparr>calls := Suc (Suc (calls s1)), page_allocs := Suc (page_allocs s1),
                   root_page := \<lparr>ref_state = WT_REF_MEM, ref_addr = WT_ADDR_INVALID,
                      ref_size = 0, ref_page = Some (root_of s1)\<rparr>,
                   reconciled := reconciled s1 @ [(root_of s1, 0)]\<rparr>"
proof (cases "wt_bulk_end_flush env s")
  case (Inl f)
  with run show ?thesis by (simp add: wt_bulk_end_def)
next
  case (Inr p)
  obtain r1 s1 where p: "p = (r1, s1)" by (cases p)
  show ?thesis
  proof (cases "r1 = 0")
    case True
    with Inr p have fl: "wt_bulk_end_flush env s = Inr (0, s1)" by simp
    have pt: "page_type s1 = page_type s" using end_flush_frame [OF fl] by simp
    from run leaf pt show ?thesis
      unfolding bulk_end_after_flush [OF fl] fl by (auto split: if_splits)
  next
    case False
    with Inr p run bulk_end_flush_failed [of env s r1 s1] show ?thesis by auto
  qed
qed

lemma bulk_end_ok:
  assumes ok: "all_ok env" and fl: "wt_bulk_end_flush env s = Inr (0, s1)"
    and leaf: "is_col_leaf (page_type s) \<or> page_type s = WT_PAGE_ROW_LEAF"
  shows "\<exists>s'. wt_bulk_end env s = Inr (0, s')"
proof -
  have pt: "page_type s1 = page_type s" using end_flush_frame [OF fl] by simp
  from ok have "ext_ret env (calls s1) = 0" "ext_ret env (Suc (calls s1)) = 0"
    by (simp_all add: all_ok_def)
  with leaf pt show ?thesis unfolding bulk_end_after_flush [OF fl] by simp
qed

lemma col_end_flush_ok:
  assumes inv: "col_inv h s" and ok: "all_ok env"
  shows "\<exists>s1. wt_bulk_end_flush env s = Inr (0, s1)"
proof -
  from inv have "ref_next s \<le> ref_entries s" using chunk_slots_le by (simp add: col_inv_def)
  from col_page_ok [OF ok this] inv show ?thesis
    by (auto simp: wt_bulk_end_flush_def col_inv_def)
qed

lemma filter_bulk_ledger:
  "list_all (\<lambda>e. snd e = 0 \<and> pg_flags (fst e) = {WT_PAGE_BULK_LOAD}) xs \<Longrightarrow>
     filter (\<lambda>p. WT_PAGE_BULK_LOAD \<in> pg_flags p) (map fst xs) = map fst xs"
  by (induction xs) auto

lemma flushed_after_root:
  assumes "leaf_ledger k n s1"
  shows "flushed (s1\<lparr>calls := c, page_allocs := a, root_page := rp,
                     reconciled := reconciled s1 @ [(root_of s1, 0)]\<rparr>) =
         map fst (reconciled s1)"
  using assms filter_bulk_ledger [of "reconciled s1"]
  by (simp add: flushed_def leaf_ledger_def root_of_def page_zero_def Let_def)

lemma flush_count:
  assumes k: "0 < (k::nat)" and full: "list_all (\<lambda>x. x = k) (butlast xs)"
    and lst: "xs = [] \<or> 1 \<le> last xs \<and> last xs \<le> k" and total: "sum_list xs = n"
  shows "length xs = (if n = 0 then 0 else (n - 1) div k + 1)"
proof (cases xs rule: rev_cases)
  case Nil
  with total show ?thesis by simp
next
  case (snoc ys l)
  with full have "list_all (\<lambda>x. id x = k) ys" by simp
  from sum_list_const [OF this] have ys: "sum_list ys = length ys * k" by simp
  from snoc lst have l: "1 \<le> l" "l \<le> k" by simp_all
  from snoc total ys have n: "n = length ys * k + l" by simp
  with l have "(n - 1) div k = length ys"
    by (intro div_nat_eqI) (simp_all add: algebra_simps)
  with n l snoc show ?thesis by simp
qed

lemma length_concat_take:
  assumes "list_all (\<lambda>p. length (f p) = k) (butlast P)" and "i < length P"
  shows "length (concat (map f (take i P))) = i * k"
proof -
  from assms(2) have t: "take i P = take i (butlast P)" by (simp add: take_butlast)
  from assms(1) have "list_all (\<lambda>p. length (f p) = k) (take i (butlast P))"
    by (auto simp: list_all_iff dest: in_set_takeD)
  from length_concat_const [OF this] assms(2) t show ?thesis by simp
qed

lemma col_lookup_hit:
  assumes "\<forall>i<length P. body_recno (u (P ! i)) =
             r + length (concat (map (\<lambda>p. body_upds (u p)) (take i P)))"
    and "r \<le> n" and "n < r + length (concat (map (\<lambda>p. body_upds (u p)) P))"
  shows "col_lookup P n = Some (concat (map (\<lambda>p. body_upds (u p)) P) ! (n - r))"
  using assms
proof (induction P arbitrary: r)
  case Nil
  then show ?case by simp
next
  case (Cons p P)
  from Cons.prems(1) have r: "body_recno (u p) = r" by fastforce
  show ?case
  proof (cases "n < r + length (body_upds (u p))")
    case True
    with Cons.prems(2) have "n - r < length (body_upds (u p))" by arith
    with True r Cons.prems(2) show ?thesis by (simp add: nth_append)
  next
    case False
    let ?r = "r + length (body_upds (u p))"
    have ch: "\<forall>i<length P. body_recno (u (P ! i)) =
             ?r + length (concat (map (\<lambda>p. body_upds (u p)) (take i P)))"
    proof (intro allI impI)
      fix i assume "i < length P"
      with Cons.prems(1) have "body_recno (u ((p # P) ! Suc i)) =
          r + length (concat (map (\<lambda>p. body_upds (u p)) (take (Suc i) (p # P))))"
        by (metis length_Cons Suc_less_eq)
      then show "body_recno (u (P ! i)) =
             ?r + length (concat (map (\<lambda>p. body_upds (u p)) (take i P)))" by simp
    qed
    from False have le: "?r \<le> n" by simp
    from Cons.prems(3) have lt: "n < ?r + length (concat (map (\<lambda>p. body_upds (u p)) P))"
      by simp
    from False Cons.prems(2) have a: "\<not> n - r < length (body_upds (u p))"
      and b: "n - r - length (body_upds (u p)) = n - ?r" by arith+
    from Cons.IH [OF ch le lt] False r a b show ?thesis
      by (simp add: nth_append)
  qed
qed

lemma col_lookup_miss:
  assumes "\<forall>i<length P. body_recno (u (P ! i)) =
             r + length (concat (map (\<lambda>p. body_upds (u p)) (take i P)))"
    and "n < r \<or> r + length (concat (map (\<lambda>p. body_upds (u p)) P)) \<le> n"
  shows "col_lookup P n = None"
  using assms
proof (induction P arbitrary: r)
  case Nil
  then show ?case by simp
next
  case (Cons p P)
  from Cons.prems(1) have r: "body_recno (u p) = r" by fastforce
  let ?r = "r + length (body_upds (u p))"
  have ch: "\<forall>i<length P. body_recno (u (P ! i)) =
           ?r + length (concat (map (\<lambda>p. body_upds (u p)) (take i P)))"
  proof (intro allI impI)
    fix i assume "i < length P"
    with Cons.prems(1) have "body_recno (u ((p # P) ! Suc i)) =
        r + length (concat (map (\<lambda>p. body_upds (u p)) (take (Suc i) (p # P))))"
      by (metis length_Cons Suc_less_eq)
    then show "body_recno (u (P ! i)) =
           ?r + length (concat (map (\<lambda>p. body_upds (u p)) (take i P)))" by simp
  qed
  from Cons.prems(2) have out: "n < ?r \<or> ?r + length (concat (map (\<lambda>p. body_upds (u p)) P)) \<le> n"
    by auto
  from Cons.prems(2) r have "\<not> (body_recno (u p) \<le> n \<and> n < body_recno (u p) + length (body_upds (u p)))"
    by auto
  with Cons.IH [OF ch out] show ?case by simp
qed

lemma bulk_load_zero:
  "bulk_load env kvs s = Inr (0, s') \<longleftrightarrow>
     (\<exists>s2. bulk_inserts env kvs s = Inr (0, s2) \<and> wt_bulk_end env s2 = Inr (0, s'))"
  by (auto simp: bulk_load_def split: sum.splits prod.splits if_splits)

lemma col_load_final:
  assumes beg: "col_begun s" and run: "bulk_load env kvs s = Inr (0, s')"
  shows "\<exists>s1. leaf_ledger (ipp s) (length kvs) s1 \<and> col_content (map snd kvs) (ipp s) s1 \<and>
           is_col_leaf (page_type s1) \<and> flushed s' = map fst (reconciled s1) \<and>
           s' = s1\<lparr>calls := Suc (Suc (calls s1)), page_allocs := Suc (page_allocs s1),
                   root_page := \<lparr>ref_state = WT_REF_MEM, ref_addr = WT_ADDR_INVALID,
                      ref_size = 0, ref_page = Some (root_of s1)\<rparr>,
                   reconciled := reconciled s1 @ [(root_of s1, 0)]\<rparr>"
proof -
  from run obtain s2 where ins: "bulk_inserts env kvs s = Inr (0, s2)"
    and fin: "wt_bulk_end env s2 = Inr (0, s')"
    using bulk_load_zero by blast
  from col_inv_inserts [OF col_begun_inv [OF beg] ins]
  have inv: "col_inv (map snd kvs) s2" by simp
  have k: "ipp s2 = ipp s" using bulk_inserts_flags [OF ins] by simp
  from inv have "is_col_leaf (page_type s2) \<or> page_type s2 = WT_PAGE_ROW_LEAF"
    by (simp add: col_inv_def)
  from bulk_end_zero [OF fin this] obtain s1 where
    fl: "wt_bulk_end_flush env s2 = Inr (0, s1)" and
    s': "s' = s1\<lparr>calls := Suc (Suc (calls s1)), page_allocs := Suc (page_allocs s1),
                   root_page := \<lparr>ref_state = WT_REF_MEM, ref_addr = WT_ADDR_INVALID,
                      ref_size = 0, ref_page = Some (root_of s1)\<rparr>,
                   reconciled := reconciled s1 @ [(root_of s1, 0)]\<rparr>"
    by blast
  from col_flush_done [OF inv fl] k
  have d: "leaf_ledger (ipp s) (length kvs) s1" "col_content (map snd kvs) (ipp s) s1"
    "is_col_leaf (page_type s1)" by simp_all
  from flushed_after_root [OF d(1)] s' have "flushed s' = map fst (reconciled s1)" by simp
  with d s' show ?thesis by blast
qed

lemma col_load_ok:
  assumes beg: "col_begun s" and ok: "all_ok env"
  shows "\<exists>s'. bulk_load env kvs s = Inr (0, s')"
proof -
  from col_inserts_ok [OF col_begun_inv [OF beg] ok] obtain s2 where
    ins: "bulk_inserts env kvs s = Inr (0, s2)" by blast
  from col_inv_inserts [OF col_begun_inv [OF beg] ins]
  have inv: "col_inv (map snd kvs) s2" by simp
  from col_end_flush_ok [OF inv ok] obtain s1 where
    fl: "wt_bulk_end_flush env s2 = Inr (0, s1)" by blast
  from inv have "is_col_leaf (page_type s2) \<or> page_type s2 = WT_PAGE_ROW_LEAF"
    by (simp add: col_inv_def)
  from bulk_end_ok [OF ok fl this] ins show ?thesis using bulk_load_zero by blast
qed

text \<open>
  Claim C1. A column load that starts from a begun cursor and returns 0 has handed
  over skeleton pages whose update lists, concatenated in the order of the flushes, are
  the inserted values in the order of the inserts; the starting record number of each
  page, and the record number in its slot of the reference array, is 1 plus the number
  of records flushed before it; so a reader finds the \<open>n\<close>-th inserted value at record
  number \<open>n\<close> and nothing at other numbers. The load does return 0 when no call of
  the environment fails.
\<close>
theorem col_load_records:
  assumes "col_begun s"
  shows "(all_ok env \<longrightarrow> (\<exists>s'. bulk_load env kvs s = Inr (0, s'))) \<and>
         (\<forall>s'. bulk_load env kvs s = Inr (0, s') \<longrightarrow>
            concat (map (\<lambda>p. body_upds (u p)) (flushed s')) = map snd kvs \<and>
            (\<forall>i<length (flushed s').
               body_recno (u (flushed s' ! i)) =
                 1 + length (concat (map (\<lambda>p. body_upds (u p)) (take i (flushed s')))) \<and>
               cref s' i = body_recno (u (flushed s' ! i))) \<and>
            (\<forall>n. 1 \<le> n \<and> n \<le> length kvs \<longrightarrow>
               col_lookup (flushed s') n = Some (snd (kvs ! (n - 1)))) \<and>
            (\<forall>n. n < 1 \<or> length kvs < n \<longrightarrow> col_lookup (flushed s') n = None) \<and>
            ref_next s' = length (flushed s') \<and>
            (\<exists>root. ref_page (root_page s') = Some root \<and>
               reconciled s' = map (\<lambda>p. (p, 0)) (flushed s') @ [(root, 0)] \<and>
               entries root = length (flushed s') \<and> pg_type root = WT_PAGE_COL_INT \<and>
               u root = U_col_int 1 (cref_addr s')))"
proof (rule conjI)
  show "all_ok env \<longrightarrow> (\<exists>s'. bulk_load env kvs s = Inr (0, s'))"
    using col_load_ok [OF assms] by blast
next
  show "\<forall>s'. bulk_load env kvs s = Inr (0, s') \<longrightarrow>
            concat (map (\<lambda>p. body_upds (u p)) (flushed s')) = map snd kvs \<and>
            (\<forall>i<length (flushed s').
               body_recno (u (flushed s' ! i)) =
                 1 + length (concat (map (\<lambda>p. body_upds (u p)) (take i (flushed s')))) \<and>
               cref s' i = body_recno (u (flushed s' ! i))) \<and>
            (\<forall>n. 1 \<le> n \<and> n \<le> length kvs \<longrightarrow>
               col_lookup (flushed s') n = Some (snd (kvs ! (n - 1)))) \<and>
            (\<forall>n. n < 1 \<or> length kvs < n \<longrightarrow> col_lookup (flushed s') n = None) \<and>
            ref_next s' = length (flushed s') \<and>
            (\<exists>root. ref_page (root_page s') = Some root \<and>
               reconciled s' = map (\<lambda>p. (p, 0)) (flushed s') @ [(root, 0)] \<and>
               entries root = length (flushed s') \<and> pg_type root = WT_PAGE_COL_INT \<and>
               u root = U_col_int 1 (cref_addr s'))"
  proof (intro allI impI)
    fix s' assume run: "bulk_load env kvs s = Inr (0, s')"
    from col_load_final [OF assms run] obtain s1 where
      led: "leaf_ledger (ipp s) (length kvs) s1" and
      con: "col_content (map snd kvs) (ipp s) s1" and
      leaf: "is_col_leaf (page_type s1)" and
      P: "flushed s' = map fst (reconciled s1)" and
      s': "s' = s1\<lparr>calls := Suc (Suc (calls s1)), page_allocs := Suc (page_allocs s1),
                   root_page := \<lparr>ref_state = WT_REF_MEM, ref_addr = WT_ADDR_INVALID,
                      ref_size = 0, ref_page = Some (root_of s1)\<rparr>,
                   reconciled := reconciled s1 @ [(root_of s1, 0)]\<rparr>"
      by blast
    let ?P = "flushed s'" and ?f = "\<lambda>p. body_upds (u p)"
    have cat: "concat (map ?f ?P) = map snd kvs"
      using con P by (simp add: col_content_def comp_def)
    have full: "list_all (\<lambda>p. length (?f p) = ipp s) (butlast ?P)"
    proof -
      from led have "list_all (\<lambda>e. body_len (u (fst e)) = ipp s) (butlast (reconciled s1))"
        by (simp add: leaf_ledger_def)
      moreover from con have "list_all (\<lambda>e. body_ins (u (fst e)) = []) (butlast (reconciled s1))"
        using list_all_butlast by (auto simp: col_content_def)
      ultimately have "list_all (\<lambda>e. length (body_upds (u (fst e))) = ipp s)
          (butlast (reconciled s1))"
        by (auto simp: list_all_iff body_len_def)
      then show ?thesis using P by (simp add: map_butlast [symmetric] list_all_iff)
    qed
    have rec: "\<forall>i<length ?P.
               body_recno (u (?P ! i)) = 1 + length (concat (map ?f (take i ?P))) \<and>
               cref s' i = body_recno (u (?P ! i))"
    proof (intro allI impI)
      fix i assume i: "i < length ?P"
      with con P have "body_recno (u (?P ! i)) = Suc (i * ipp s)" "cref s1 i = Suc (i * ipp s)"
        by (simp_all add: col_content_def)
      moreover have "cref s' = cref s1" using s' by simp
      moreover note length_concat_take [OF full i]
      ultimately show "body_recno (u (?P ! i)) = 1 + length (concat (map ?f (take i ?P))) \<and>
               cref s' i = body_recno (u (?P ! i))" by simp
    qed
    then have chain: "\<forall>i<length ?P.
        body_recno (u (?P ! i)) = 1 + length (concat (map ?f (take i ?P)))" by blast
    have hit: "\<forall>n. 1 \<le> n \<and> n \<le> length kvs \<longrightarrow>
               col_lookup ?P n = Some (snd (kvs ! (n - 1)))"
    proof (intro allI impI)
      fix n assume n: "1 \<le> n \<and> n \<le> length kvs"
      then have "n < 1 + length (concat (map ?f ?P))" using cat by simp
      moreover from n have "n - 1 < length kvs" by arith
      ultimately show "col_lookup ?P n = Some (snd (kvs ! (n - 1)))"
        using col_lookup_hit [OF chain, of n] n cat by simp
    qed
    have miss: "\<forall>n. n < 1 \<or> length kvs < n \<longrightarrow> col_lookup ?P n = None"
    proof (intro allI impI)
      fix n assume "n < 1 \<or> length kvs < n"
      then have "n < 1 \<or> 1 + length (concat (map ?f ?P)) \<le> n" using cat by auto
      from col_lookup_miss [OF chain this] show "col_lookup ?P n = None" .
    qed
    have cnt: "ref_next s' = length ?P"
      using led P s' by (simp add: leaf_ledger_def)
    have root: "\<exists>root. ref_page (root_page s') = Some root \<and>
               reconciled s' = map (\<lambda>p. (p, 0)) ?P @ [(root, 0)] \<and>
               entries root = length ?P \<and> pg_type root = WT_PAGE_COL_INT \<and>
               u root = U_col_int 1 (cref_addr s')"
    proof -
      from led have "map (\<lambda>p. (p, 0)) (map fst (reconciled s1)) = reconciled s1"
        by (auto simp: leaf_ledger_def list_all_iff intro!: map_idI)
      moreover have "entries (root_of s1) = ref_next s1" "pg_type (root_of s1) = WT_PAGE_COL_INT"
        "u (root_of s1) = U_col_int 1 (cref_addr s1)"
        using leaf by (simp_all add: root_of_def Let_def)
      moreover have "ref_next s1 = length (reconciled s1)" using led by (simp add: leaf_ledger_def)
      ultimately show ?thesis
        unfolding P by (subst (1 2 3) s') simp
    qed
    from cat rec hit miss cnt root
    show "concat (map ?f ?P) = map snd kvs \<and>
            (\<forall>i<length ?P.
               body_recno (u (?P ! i)) = 1 + length (concat (map ?f (take i ?P))) \<and>
               cref s' i = body_recno (u (?P ! i))) \<and>
            (\<forall>n. 1 \<le> n \<and> n \<le> length kvs \<longrightarrow>
               col_lookup ?P n = Some (snd (kvs ! (n - 1)))) \<and>
            (\<forall>n. n < 1 \<or> length kvs < n \<longrightarrow> col_lookup ?P n = None) \<and>
            ref_next s' = length ?P \<and>
            (\<exists>root. ref_page (root_page s') = Some root \<and>
               reconciled s' = map (\<lambda>p. (p, 0)) ?P @ [(root, 0)] \<and>
               entries root = length ?P \<and> pg_type root = WT_PAGE_COL_INT \<and>
               u root = U_col_int 1 (cref_addr s'))"
      by blast
  qed
qed

lemma bulk_init_col_begun:
  assumes "wt_bulk_init env c = Inr (0, s)" and "WT_ERROR env \<noteq> 0"
    and "btree_type c \<noteq> BTREE_ROW"
    and "ins_cnt c = 0" and "ref_next c = 0" and "ref_entries c = 0" and "reconciled c = []"
  shows "col_begun s"
  using assms
  by (cases "btree_type c")
     (auto simp: wt_bulk_init_def Let_def col_begun_def is_col_leaf_def
       split: option.splits if_splits)

lemma bulk_init_row_begun:
  assumes "wt_bulk_init env c = Inr (0, s)" and "WT_ERROR env \<noteq> 0"
    and "btree_type c = BTREE_ROW"
    and "ins_cnt c = 0" and "ref_next c = 0" and "ref_entries c = 0" and "reconciled c = []"
  shows "row_begun s"
  using assms
  by (auto simp: wt_bulk_init_def Let_def row_begun_def split: option.splits if_splits)

theorem col_load_records_witness:
  "col_begun (started BTREE_COL_VAR 3) \<and> all_ok (env_fail_at {}) \<and>
   (\<exists>s'. bulk_load (env_fail_at {})
            [([], ''10''), ([], ''20''), ([], ''30''), ([], ''40'')]
            (started BTREE_COL_VAR 3) = Inr (0, s') \<and>
      map u (flushed s') =
        [U_bulk_upd 1 [''10'', ''20'', ''30''], U_bulk_upd 4 [''40'']] \<and>
      concat (map (\<lambda>p. body_upds (u p)) (flushed s')) = [''10'', ''20'', ''30'', ''40''] \<and>
      col_lookup (flushed s') 4 = Some ''40'' \<and> col_lookup (flushed s') 5 = None \<and>
      cref s' 1 = 4 \<and> ref_next s' = 2)"
proof -
  let ?e = "env_fail_at {}" and ?s = "started BTREE_COL_VAR 3"
  let ?kvs = "[([], ''10''), ([], ''20''), ([], ''30''), ([], ''40'')]"
  have b: "col_begun ?s" by (simp add: col_begun_def example_defs run_defs)
  have ok: "all_ok ?e" by (simp add: all_ok_def env_fail_at_def)
  note t = col_load_records [OF b, of ?e ?kvs]
  from t ok obtain s' where run: "bulk_load ?e ?kvs ?s = Inr (0, s')" by blast
  from run have pages: "map u (flushed s') =
      [U_bulk_upd 1 [''10'', ''20'', ''30''], U_bulk_upd 4 [''40'']]"
    by (auto simp: flushed_def example_defs run_defs)
  from t run have
    "concat (map (\<lambda>p. body_upds (u p)) (flushed s')) = map snd ?kvs"
    "col_lookup (flushed s') 4 = Some (snd (?kvs ! (4 - 1)))"
    "col_lookup (flushed s') 5 = None"
    "ref_next s' = length (flushed s')"
    "\<forall>i<length (flushed s'). cref s' i = body_recno (u (flushed s' ! i))"
    by simp_all
  moreover from pages have "length (flushed s') = 2" "u (flushed s' ! 1) = U_bulk_upd 4 [''40'']"
    by (auto simp: map_eq_Cons_conv)
  ultimately show ?thesis using b ok run pages by auto
qed

subsection \<open>A whole row load\<close>

lemma row_page_zero:
  assumes "wt_bulk_row_page env s = Inr (0, s')"
  shows "\<exists>pg. reconciled s' = reconciled s @ [(pg, 0)] \<and>
           u pg = U_bulk_ins 0 (ins_base s) \<and> pg_flags pg = {WT_PAGE_BULK_LOAD} \<and>
           pg_type pg = WT_PAGE_ROW_LEAF \<and> parent_ref pg = Ref_slot (rref_addr s') (ref_next s)"
    and "ins_base s \<noteq> []" and "insp s' = Link_base" and "ins_cnt s' = 0"
    and "ref_next s' = Suc (ref_next s)"
    and "rref s' = (rref s)(ref_next s := ins_key (hd (ins_base s)))"
    and "ref_entries s' = (if ref_next s = ref_entries s then ref_entries s + 1000 else ref_entries s)"
    and "ref_next s < ref_entries s'" and "ins_base s' = ins_base s"
  using assms
  by (auto simp: wt_bulk_row_page_def ext_defs Let_def page_zero_def
      split: if_splits prod.splits list.splits)

lemma row_page_ok:
  assumes "all_ok env" and "ref_next s \<le> ref_entries s" and "ins_base s \<noteq> []"
  shows "\<exists>s'. wt_bulk_row_page env s = Inr (0, s')"
  using assms
  by (auto simp: all_ok_def wt_bulk_row_page_def ext_defs Let_def
      split: if_splits prod.splits list.splits)

lemma bulk_row_unfold:
  assumes "insp s \<noteq> Link_null" and "ext_ret env (calls s) = 0"
    and "ext_ret env (Suc (calls s)) = 0"
  shows "wt_bulk_row env s =
     (if Suc (ins_cnt s) = ipp s then
        (case wt_bulk_row_page env (row_linked s) of
           Inl f \<Rightarrow> Inl f
         | Inr (ret, s6) \<Rightarrow>
             if ret \<noteq> 0 then Inr (ret, wt_sb_decrement s6) else Inr (0, s6))
      else Inr (0, row_linked s))"
  using assms
  by (cases "insp s")
     (simp_all add: wt_bulk_row_def wt_bulk_row_err_def ext_defs link_store_def Let_def
        row_linked_def active_ins_def split: sum.splits prod.splits)

lemma bulk_row_zero_pre:
  assumes "wt_bulk_row env s = Inr (0, s')"
  shows "insp s \<noteq> Link_null \<and> ext_ret env (calls s) = 0 \<and> ext_ret env (Suc (calls s)) = 0"
  using assms
  by (cases "insp s")
     (auto simp: wt_bulk_row_def ext_defs link_store_def Let_def split: if_splits)

lemma bulk_insert_row:
  assumes "page_type s = WT_PAGE_ROW_LEAF"
  shows "wt_bulk_insert env s = Inr (0, s') \<longleftrightarrow>
           (\<exists>t. wt_bulk_row env s = Inr (0, t) \<and> s' = stat_incr_items_inserted t)"
  using assms
  by (auto simp: wt_bulk_insert_def is_col_leaf_def split: sum.splits prod.splits if_splits)

lemma bulk_row_step_keep:
  assumes "wt_bulk_row env s = Inr (0, t)" and "Suc (ins_cnt s) \<noteq> ipp s"
  shows "t = row_linked s"
  using assms bulk_row_zero_pre [OF assms(1)] by (simp add: bulk_row_unfold)

lemma bulk_row_step_flush:
  assumes "wt_bulk_row env s = Inr (0, t)" and "Suc (ins_cnt s) = ipp s"
  shows "wt_bulk_row_page env (row_linked s) = Inr (0, t)"
  using assms bulk_row_zero_pre [OF assms(1)]
  by (auto simp: bulk_row_unfold split: sum.splits prod.splits if_splits)

lemma row_inv_step:
  assumes inv: "row_inv h s"
    and run: "wt_bulk_insert env (s\<lparr>cur_key := k, cur_value := v\<rparr>) = Inr (0, s')"
  shows "row_inv (h @ [\<lparr>ins_key = k, ins_upd = Some v\<rparr>]) s'"
proof -
  let ?s = "s\<lparr>cur_key := k, cur_value := v\<rparr>"
  let ?x = "\<lparr>ins_key = k, ins_upd = Some v\<rparr>"
  from inv have leaf: "page_type ?s = WT_PAGE_ROW_LEAF" by (simp add: row_inv_def)
  from run obtain t where t: "wt_bulk_row env ?s = Inr (0, t)"
    and s': "s' = stat_incr_items_inserted t"
    using bulk_insert_row [OF leaf] by blast
  have au: "active_ins ?s = active_ins s" by (simp add: active_ins_def)
  show ?thesis
  proof (cases "Suc (ins_cnt s) = ipp s")
    case False
    with t have "t = row_linked ?s" using bulk_row_step_keep [of env ?s t] by simp
    with inv False s' show ?thesis
      by (auto simp: row_inv_def row_linked_def stat_incr_items_inserted_def active_ins_def)
  next
    case True
    let ?l = "row_linked ?s"
    from t True have pg: "wt_bulk_row_page env ?l = Inr (0, t)"
      using bulk_row_step_flush [of env ?s t] by simp
    note z = row_page_zero [OF pg]
    note fr = row_page_frame [OF pg]
    have lb: "ins_base ?l = active_ins s @ [?x]" by (simp add: row_linked_def au)
    from z(1) lb obtain pg where ledger: "reconciled t = reconciled s @ [(pg, 0)]"
      and body: "u pg = U_bulk_ins 0 (active_ins s @ [?x])"
      and fl: "pg_flags pg = {WT_PAGE_BULK_LOAD}"
      by (auto simp: row_linked_def)
    have n: "ref_next s = length (reconciled s)" using inv by (simp add: row_inv_def)
    have len: "length (active_ins s) = ins_cnt s" using inv by (simp add: row_inv_def)
    have c1: "page_type t = WT_PAGE_ROW_LEAF \<and> 0 < ipp t \<and> ipp t = ipp s"
      using fr inv by (simp add: row_linked_def row_inv_def)
    have c2: "insp t = Link_base \<and> ins_cnt t = 0 \<and> active_ins t = []"
      using z by (simp add: active_ins_def)
    have c3: "list_all (\<lambda>e. snd e = 0 \<and> pg_flags (fst e) = {WT_PAGE_BULK_LOAD} \<and>
                  length (body_ins (u (fst e))) = ipp s \<and> body_upds (u (fst e)) = [])
               (reconciled t)"
      using inv ledger body fl len True by (simp add: row_inv_def)
    have c4: "concat (map (\<lambda>e. body_ins (u (fst e))) (reconciled t)) = h @ [?x]"
      using inv ledger body by (simp add: row_inv_def)
    have c6: "ref_next t = length (reconciled t)"
      using z(5) n ledger by (simp add: row_linked_def)
    have c7: "\<forall>i<length (reconciled t).
        rref t i = ins_key (hd (body_ins (u (fst (reconciled t ! i)))))"
    proof (intro allI impI)
      fix i assume i: "i < length (reconciled t)"
      show "rref t i = ins_key (hd (body_ins (u (fst (reconciled t ! i)))))"
      proof (cases "i < length (reconciled s)")
        case True
        with inv have "rref s i = ins_key (hd (body_ins (u (fst (reconciled s ! i)))))"
          by (simp add: row_inv_def)
        with True z(6) n ledger show ?thesis by (simp add: nth_append row_linked_def)
      next
        case False
        with i ledger have "i = length (reconciled s)" by simp
        with z(6) n ledger body lb show ?thesis by (simp add: nth_append row_linked_def)
      qed
    qed
    have c8: "ref_entries t = 1000 * ((ref_next t + 999) div 1000)"
    proof -
      from inv have "ref_entries s = 1000 * ((ref_next s + 999) div 1000)"
        by (simp add: row_inv_def)
      from chunk_slots_next [OF this] z(7) z(5) show ?thesis
        by (simp add: row_linked_def split: if_splits)
    qed
    from c1 c2 c3 c4 c6 c7 c8 s' show ?thesis
      by (simp add: row_inv_def stat_incr_items_inserted_def active_ins_def)
  qed
qed

lemma row_insert_ok:
  assumes inv: "row_inv h s" and ok: "all_ok env"
  shows "\<exists>s'. wt_bulk_insert env (s\<lparr>cur_key := k, cur_value := v\<rparr>) = Inr (0, s')"
proof -
  let ?s = "s\<lparr>cur_key := k, cur_value := v\<rparr>"
  from inv have leaf: "page_type ?s = WT_PAGE_ROW_LEAF" and nn: "insp ?s \<noteq> Link_null"
    by (simp_all add: row_inv_def)
  from ok have e: "ext_ret env (calls ?s) = 0" "ext_ret env (Suc (calls ?s)) = 0"
    by (simp_all add: all_ok_def)
  from inv have "ref_next s \<le> ref_entries s" using chunk_slots_le by (simp add: row_inv_def)
  then have "ref_next (row_linked ?s) \<le> ref_entries (row_linked ?s)"
    and "ins_base (row_linked ?s) \<noteq> []"
    by (simp_all add: row_linked_def)
  from row_page_ok [OF ok this] obtain t where
    "wt_bulk_row_page env (row_linked ?s) = Inr (0, t)" by blast
  then have "\<exists>t. wt_bulk_row env ?s = Inr (0, t)"
    by (simp add: bulk_row_unfold [OF nn e])
  then show ?thesis using bulk_insert_row [OF leaf] by blast
qed

lemma row_begun_inv: "row_begun s \<Longrightarrow> row_inv [] s"
  by (simp add: row_begun_def row_inv_def active_ins_def)

lemma row_inv_inserts:
  "row_inv h s \<Longrightarrow> bulk_inserts env kvs s = Inr (0, s') \<Longrightarrow>
     row_inv (h @ map (\<lambda>kv. \<lparr>ins_key = fst kv, ins_upd = Some (snd kv)\<rparr>) kvs) s'"
proof (induction kvs arbitrary: h s)
  case Nil
  then show ?case by simp
next
  case (Cons kv kvs)
  let ?s = "s\<lparr>cur_key := fst kv, cur_value := snd kv\<rparr>"
  from Cons.prems(2) obtain s1 where
    one: "wt_bulk_insert env ?s = Inr (0, s1)" and rest: "bulk_inserts env kvs s1 = Inr (0, s')"
    by (auto split: sum.splits prod.splits if_splits)
  from row_inv_step [OF Cons.prems(1) one]
  have "row_inv (h @ [\<lparr>ins_key = fst kv, ins_upd = Some (snd kv)\<rparr>]) s1" .
  from Cons.IH [OF this rest] show ?case by simp
qed

lemma row_inserts_ok:
  "row_inv h s \<Longrightarrow> all_ok env \<Longrightarrow> \<exists>s'. bulk_inserts env kvs s = Inr (0, s')"
proof (induction kvs arbitrary: h s)
  case Nil
  then show ?case by simp
next
  case (Cons kv kvs)
  let ?s = "s\<lparr>cur_key := fst kv, cur_value := snd kv\<rparr>"
  from row_insert_ok [OF Cons.prems] obtain s1 where
    one: "wt_bulk_insert env ?s = Inr (0, s1)" by blast
  from row_inv_step [OF Cons.prems(1) one]
  have "row_inv (h @ [\<lparr>ins_key = fst kv, ins_upd = Some (snd kv)\<rparr>]) s1" .
  from Cons.IH [OF this Cons.prems(2)] one show ?case by simp
qed

lemma row_flush_done:
  assumes inv: "row_inv h s" and fl: "wt_bulk_end_flush env s = Inr (0, s1)"
  shows "leaf_ledger (ipp s) (length h) s1 \<and> row_content h s1 \<and>
         page_type s1 = WT_PAGE_ROW_LEAF"
proof (cases "ins_cnt s = 0")
  case True
  with fl have eq: "s1 = s" by (simp add: wt_bulk_end_flush_def)
  from inv True have act: "active_ins s = []" by (simp add: row_inv_def)
  from inv have all: "list_all (\<lambda>e. body_len (u (fst e)) = ipp s) (reconciled s)"
    by (simp add: row_inv_def body_len_def list_all_iff)
  from inv act have h: "concat (map (\<lambda>e. body_ins (u (fst e))) (reconciled s)) = h"
    by (simp add: row_inv_def)
  have "sum_list (map (\<lambda>e. body_len (u (fst e))) (reconciled s)) = length (reconciled s) * ipp s"
    using sum_list_const [OF all] .
  moreover have "length h = length (reconciled s) * ipp s"
  proof -
    from inv have "list_all (\<lambda>e. length (body_ins (u (fst e))) = ipp s) (reconciled s)"
      by (simp add: row_inv_def list_all_iff)
    from length_concat_const [OF this] h show ?thesis by simp
  qed
  moreover have "reconciled s = [] \<or>
        1 \<le> body_len (u (fst (last (reconciled s)))) \<and>
        body_len (u (fst (last (reconciled s)))) \<le> ipp s"
  proof (cases "reconciled s = []")
    case False
    from list_all_last [OF all False] inv show ?thesis by (simp add: row_inv_def)
  qed simp
  ultimately have "leaf_ledger (ipp s) (length h) s"
    using inv list_all_butlast [OF all]
    by (simp add: leaf_ledger_def row_inv_def list_all_iff)
  moreover have "row_content h s"
    using inv h by (simp add: row_content_def row_inv_def list_all_iff)
  ultimately show ?thesis using eq inv by (simp add: row_inv_def)
next
  case False
  from inv have leaf: "page_type s = WT_PAGE_ROW_LEAF" by (simp add: row_inv_def)
  with fl False have pg: "wt_bulk_row_page env s = Inr (0, s1)"
    by (simp add: wt_bulk_end_flush_def is_col_leaf_def)
  note z = row_page_zero [OF pg]
  note fr = row_page_frame [OF pg]
  from inv False have nx: "insp s = Link_next" and act: "active_ins s = ins_base s"
    and len: "length (ins_base s) = ins_cnt s"
    by (auto simp: row_inv_def active_ins_def split: if_splits)
  from z(1) obtain pg where ledger: "reconciled s1 = reconciled s @ [(pg, 0)]"
    and body: "u pg = U_bulk_ins 0 (ins_base s)"
    and flg: "pg_flags pg = {WT_PAGE_BULK_LOAD}"
    by auto
  from inv have all: "list_all (\<lambda>e. body_len (u (fst e)) = ipp s) (reconciled s)"
    by (simp add: row_inv_def body_len_def list_all_iff)
  from inv act have h: "concat (map (\<lambda>e. body_ins (u (fst e))) (reconciled s)) @ ins_base s = h"
    by (simp add: row_inv_def)
  have hl: "length h = length (reconciled s) * ipp s + ins_cnt s"
  proof -
    from inv have "list_all (\<lambda>e. length (body_ins (u (fst e))) = ipp s) (reconciled s)"
      by (simp add: row_inv_def list_all_iff)
    from length_concat_const [OF this] h len show ?thesis by auto
  qed
  have l1: "list_all (\<lambda>e. snd e = 0 \<and> pg_flags (fst e) = {WT_PAGE_BULK_LOAD}) (reconciled s1)"
    using inv ledger flg by (simp add: row_inv_def list_all_iff)
  have l2: "ref_next s1 = length (reconciled s1)"
    using inv ledger z(5) by (simp add: row_inv_def)
  have l3: "list_all (\<lambda>e. body_len (u (fst e)) = ipp s) (butlast (reconciled s1))"
    using all ledger by simp
  have l4: "1 \<le> body_len (u (fst (last (reconciled s1)))) \<and>
        body_len (u (fst (last (reconciled s1)))) \<le> ipp s"
  proof -
    from False inv have "0 < ins_cnt s" "ins_cnt s < ipp s" by (simp_all add: row_inv_def)
    with ledger body len show ?thesis by (simp add: body_len_def)
  qed
  have l5: "sum_list (map (\<lambda>e. body_len (u (fst e))) (reconciled s1)) = length h"
    using sum_list_const [OF all] ledger body len hl by (simp add: body_len_def)
  have l6: "ref_entries s1 = 1000 * ((ref_next s1 + 999) div 1000)"
  proof -
    from inv have "ref_entries s = 1000 * ((ref_next s + 999) div 1000)"
      by (simp add: row_inv_def)
    from chunk_slots_next [OF this] z(7) z(5) show ?thesis by (simp split: if_splits)
  qed
  have c0: "list_all (\<lambda>e. body_upds (u (fst e)) = []) (reconciled s1)"
    using inv ledger body by (simp add: row_inv_def list_all_iff)
  have c1: "concat (map (\<lambda>e. body_ins (u (fst e))) (reconciled s1)) = h"
    using h ledger body by simp
  have c2: "\<forall>i<length (reconciled s1).
        rref s1 i = ins_key (hd (body_ins (u (fst (reconciled s1 ! i)))))"
  proof (intro allI impI)
    fix i assume i: "i < length (reconciled s1)"
    have n: "ref_next s = length (reconciled s)" using inv by (simp add: row_inv_def)
    show "rref s1 i = ins_key (hd (body_ins (u (fst (reconciled s1 ! i)))))"
    proof (cases "i < length (reconciled s)")
      case True
      with inv have "rref s i = ins_key (hd (body_ins (u (fst (reconciled s ! i)))))"
        by (simp add: row_inv_def)
      with True z(6) n ledger show ?thesis by (simp add: nth_append)
    next
      case False
      with i ledger have "i = length (reconciled s)" by simp
      with z(6) n ledger body show ?thesis by (simp add: nth_append)
    qed
  qed
  from l1 l2 l3 l4 l5 l6 c0 c1 c2 fr leaf show ?thesis
    by (simp add: leaf_ledger_def row_content_def)
qed

lemma row_end_flush_ok:
  assumes inv: "row_inv h s" and ok: "all_ok env"
  shows "\<exists>s1. wt_bulk_end_flush env s = Inr (0, s1)"
proof (cases "ins_cnt s = 0")
  case True
  then show ?thesis by (simp add: wt_bulk_end_flush_def)
next
  case False
  from inv have le: "ref_next s \<le> ref_entries s" using chunk_slots_le by (simp add: row_inv_def)
  from inv False have "ins_base s \<noteq> []"
    by (auto simp: row_inv_def active_ins_def split: if_splits)
  from row_page_ok [OF ok le this] inv False show ?thesis
    by (auto simp: wt_bulk_end_flush_def row_inv_def is_col_leaf_def)
qed

subsection \<open>Counting the flushes\<close>

lemma row_load_final:
  assumes beg: "row_begun s" and run: "bulk_load env kvs s = Inr (0, s')"
  shows "\<exists>s1. leaf_ledger (ipp s) (length kvs) s1 \<and>
           row_content (map (\<lambda>kv. \<lparr>ins_key = fst kv, ins_upd = Some (snd kv)\<rparr>) kvs) s1 \<and>
           page_type s1 = WT_PAGE_ROW_LEAF \<and> flushed s' = map fst (reconciled s1) \<and>
           s' = s1\<lparr>calls := Suc (Suc (calls s1)), page_allocs := Suc (page_allocs s1),
                   root_page := \<lparr>ref_state = WT_REF_MEM, ref_addr = WT_ADDR_INVALID,
                      ref_size = 0, ref_page = Some (root_of s1)\<rparr>,
                   reconciled := reconciled s1 @ [(root_of s1, 0)]\<rparr>"
proof -
  let ?h = "map (\<lambda>kv. \<lparr>ins_key = fst kv, ins_upd = Some (snd kv)\<rparr>) kvs"
  from run obtain s2 where ins: "bulk_inserts env kvs s = Inr (0, s2)"
    and fin: "wt_bulk_end env s2 = Inr (0, s')"
    using bulk_load_zero by blast
  from row_inv_inserts [OF row_begun_inv [OF beg] ins]
  have inv: "row_inv ?h s2" by simp
  have k: "ipp s2 = ipp s" using bulk_inserts_flags [OF ins] by simp
  from inv have "is_col_leaf (page_type s2) \<or> page_type s2 = WT_PAGE_ROW_LEAF"
    by (simp add: row_inv_def)
  from bulk_end_zero [OF fin this] obtain s1 where
    fl: "wt_bulk_end_flush env s2 = Inr (0, s1)" and
    s': "s' = s1\<lparr>calls := Suc (Suc (calls s1)), page_allocs := Suc (page_allocs s1),
                   root_page := \<lparr>ref_state = WT_REF_MEM, ref_addr = WT_ADDR_INVALID,
                      ref_size = 0, ref_page = Some (root_of s1)\<rparr>,
                   reconciled := reconciled s1 @ [(root_of s1, 0)]\<rparr>"
    by blast
  from row_flush_done [OF inv fl] k
  have d: "leaf_ledger (ipp s) (length kvs) s1" "row_content ?h s1"
    "page_type s1 = WT_PAGE_ROW_LEAF" by simp_all
  from flushed_after_root [OF d(1)] s' have "flushed s' = map fst (reconciled s1)" by simp
  with d s' show ?thesis by blast
qed

lemma row_load_ok:
  assumes beg: "row_begun s" and ok: "all_ok env"
  shows "\<exists>s'. bulk_load env kvs s = Inr (0, s')"
proof -
  from row_inserts_ok [OF row_begun_inv [OF beg] ok] obtain s2 where
    ins: "bulk_inserts env kvs s = Inr (0, s2)" by blast
  from row_inv_inserts [OF row_begun_inv [OF beg] ins] obtain h where
    inv: "row_inv h s2" by simp
  from row_end_flush_ok [OF inv ok] obtain s1 where
    fl: "wt_bulk_end_flush env s2 = Inr (0, s1)" by blast
  from inv have "is_col_leaf (page_type s2) \<or> page_type s2 = WT_PAGE_ROW_LEAF"
    by (simp add: row_inv_def)
  from bulk_end_ok [OF ok fl this] ins show ?thesis using bulk_load_zero by blast
qed

lemma load_ledger:
  assumes beg: "col_begun s \<or> row_begun s" and run: "bulk_load env kvs s = Inr (0, s')"
  shows "\<exists>s1. leaf_ledger (ipp s) (length kvs) s1 \<and> flushed s' = map fst (reconciled s1) \<and>
           ref_next s' = ref_next s1 \<and> ref_entries s' = ref_entries s1"
proof -
  from beg show ?thesis
  proof
    assume "col_begun s"
    from col_load_final [OF this run] obtain s1 where
      "leaf_ledger (ipp s) (length kvs) s1" "flushed s' = map fst (reconciled s1)"
      "s' = s1\<lparr>calls := Suc (Suc (calls s1)), page_allocs := Suc (page_allocs s1),
                   root_page := \<lparr>ref_state = WT_REF_MEM, ref_addr = WT_ADDR_INVALID,
                      ref_size = 0, ref_page = Some (root_of s1)\<rparr>,
                   reconciled := reconciled s1 @ [(root_of s1, 0)]\<rparr>"
      by blast
    moreover from this(3) have "ref_next s' = ref_next s1 \<and> ref_entries s' = ref_entries s1"
      by (subst (1 2) \<open>s' = _\<close>) simp
    ultimately show ?thesis by blast
  next
    assume "row_begun s"
    from row_load_final [OF this run] obtain s1 where
      "leaf_ledger (ipp s) (length kvs) s1" "flushed s' = map fst (reconciled s1)"
      "s' = s1\<lparr>calls := Suc (Suc (calls s1)), page_allocs := Suc (page_allocs s1),
                   root_page := \<lparr>ref_state = WT_REF_MEM, ref_addr = WT_ADDR_INVALID,
                      ref_size = 0, ref_page = Some (root_of s1)\<rparr>,
                   reconciled := reconciled s1 @ [(root_of s1, 0)]\<rparr>"
      by blast
    moreover from this(3) have "ref_next s' = ref_next s1 \<and> ref_entries s' = ref_entries s1"
      by (subst (1 2) \<open>s' = _\<close>) simp
    ultimately show ?thesis by blast
  qed
qed

text \<open>
  Claim C2. A load (row or column) of \<open>n\<close> inserts that starts from a begun cursor
  with capacity \<^verbatim>\<open>ipp\<close> and returns 0 has flushed exactly
  \<open>(n - 1) div ipp + 1\<close> skeleton pages (none when \<open>n = 0\<close>); every one but the
  last holds \<^verbatim>\<open>ipp\<close> records, the last between 1 and \<^verbatim>\<open>ipp\<close>, together \<open>n\<close>;
  and \<^verbatim>\<open>ref_next\<close> after the end is the number of flushed pages. The load does
  return 0 when no call of the environment fails.
\<close>
theorem load_flush_count:
  assumes "col_begun s \<or> row_begun s"
  shows "(all_ok env \<longrightarrow> (\<exists>s'. bulk_load env kvs s = Inr (0, s'))) \<and>
         (\<forall>s'. bulk_load env kvs s = Inr (0, s') \<longrightarrow>
            length (flushed s') = (if kvs = [] then 0 else (length kvs - 1) div ipp s + 1) \<and>
            (\<forall>p\<in>set (butlast (flushed s')). body_len (u p) = ipp s) \<and>
            (flushed s' = [] \<or>
               1 \<le> body_len (u (last (flushed s'))) \<and>
               body_len (u (last (flushed s'))) \<le> ipp s) \<and>
            sum_list (map (\<lambda>p. body_len (u p)) (flushed s')) = length kvs \<and>
            ref_next s' = length (flushed s'))"
proof (rule conjI)
  show "all_ok env \<longrightarrow> (\<exists>s'. bulk_load env kvs s = Inr (0, s'))"
    using assms col_load_ok [of s env kvs] row_load_ok [of s env kvs] by blast
next
  show "\<forall>s'. bulk_load env kvs s = Inr (0, s') \<longrightarrow>
            length (flushed s') = (if kvs = [] then 0 else (length kvs - 1) div ipp s + 1) \<and>
            (\<forall>p\<in>set (butlast (flushed s')). body_len (u p) = ipp s) \<and>
            (flushed s' = [] \<or>
               1 \<le> body_len (u (last (flushed s'))) \<and>
               body_len (u (last (flushed s'))) \<le> ipp s) \<and>
            sum_list (map (\<lambda>p. body_len (u p)) (flushed s')) = length kvs \<and>
            ref_next s' = length (flushed s')"
  proof (intro allI impI)
    fix s' assume run: "bulk_load env kvs s = Inr (0, s')"
    from load_ledger [OF assms run] obtain s1 where
      led: "leaf_ledger (ipp s) (length kvs) s1" and P: "flushed s' = map fst (reconciled s1)"
      and rn: "ref_next s' = ref_next s1" by blast
    let ?L = "reconciled s1"
    let ?xs = "map (\<lambda>e. body_len (u (fst e))) ?L"
    have k: "0 < ipp s" using assms by (auto simp: col_begun_def row_begun_def)
    have full: "list_all (\<lambda>x. x = ipp s) (butlast ?xs)"
      using led by (simp add: leaf_ledger_def map_butlast [symmetric] list_all_iff)
    have lst: "?xs = [] \<or> 1 \<le> last ?xs \<and> last ?xs \<le> ipp s"
      using led by (auto simp: leaf_ledger_def last_map)
    have tot: "sum_list ?xs = length kvs" using led by (simp add: leaf_ledger_def)
    from flush_count [OF k full lst tot]
    have a: "length (flushed s') = (if kvs = [] then 0 else (length kvs - 1) div ipp s + 1)"
      using P by simp
    have b: "\<forall>p\<in>set (butlast (flushed s')). body_len (u p) = ipp s"
      using led P by (auto simp: leaf_ledger_def map_butlast [symmetric] list_all_iff)
    have c: "flushed s' = [] \<or>
               1 \<le> body_len (u (last (flushed s'))) \<and>
               body_len (u (last (flushed s'))) \<le> ipp s"
      using led P by (auto simp: leaf_ledger_def last_map)
    have d: "sum_list (map (\<lambda>p. body_len (u p)) (flushed s')) = length kvs"
      using tot P by (simp add: comp_def)
    have e: "ref_next s' = length (flushed s')"
      using led P rn by (simp add: leaf_ledger_def)
    from a b c d e
    show "length (flushed s') = (if kvs = [] then 0 else (length kvs - 1) div ipp s + 1) \<and>
            (\<forall>p\<in>set (butlast (flushed s')). body_len (u p) = ipp s) \<and>
            (flushed s' = [] \<or>
               1 \<le> body_len (u (last (flushed s'))) \<and>
               body_len (u (last (flushed s'))) \<le> ipp s) \<and>
            sum_list (map (\<lambda>p. body_len (u p)) (flushed s')) = length kvs \<and>
            ref_next s' = length (flushed s')"
      by blast
  qed
qed

theorem load_flush_count_witness:
  "row_begun (started BTREE_ROW 2) \<and> all_ok (env_fail_at {}) \<and>
   (\<exists>s'. bulk_load (env_fail_at {}) [(''a'', ''1''), (''b'', ''2''), (''c'', ''3'')]
            (started BTREE_ROW 2) = Inr (0, s') \<and>
      length (flushed s') = 2 \<and> ref_next s' = 2 \<and>
      map (\<lambda>p. body_len (u p)) (flushed s') = [2, 1] \<and>
      map (rref s') [0, 1] = [''a'', ''c''])"
proof -
  let ?e = "env_fail_at {}" and ?s = "started BTREE_ROW 2"
  let ?kvs = "[(''a'', ''1''), (''b'', ''2''), (''c'', ''3'')]"
  have b: "row_begun ?s" by (simp add: row_begun_def example_defs run_defs)
  then have b': "col_begun ?s \<or> row_begun ?s" ..
  have ok: "all_ok ?e" by (simp add: all_ok_def env_fail_at_def)
  have k: "ipp ?s = 2" by (simp add: example_defs run_defs)
  note t = load_flush_count [OF b', of ?e ?kvs]
  from t [THEN conjunct1] ok obtain s' where run: "bulk_load ?e ?kvs ?s = Inr (0, s')"
    by (elim impE exE)
  note f = t [THEN conjunct2, rule_format, OF run]
  note n0 = f [THEN conjunct1] f [THEN conjunct2, THEN conjunct2, THEN conjunct2, THEN conjunct2]
  have "(if ?kvs = [] then 0 else (length ?kvs - 1) div ipp ?s + 1) = 2" unfolding k by simp
  with n0 have n: "length (flushed s') = 2" "ref_next s' = 2" by simp_all
  from run have v: "map (\<lambda>p. body_len (u p)) (flushed s') = [2, 1]"
    "map (rref s') [0, 1] = [''a'', ''c'']"
    by (auto simp: flushed_def body_len_def example_defs run_defs)
  show ?thesis
    by (intro conjI exI [of _ s']) (rule b ok run n v)+
qed

subsection \<open>Child references\<close>

lemma col_page_flushed:
  assumes "wt_bulk_col_page env s = Inr (r, s')" and "ref_next s' \<noteq> ref_next s"
  shows "\<exists>pg. reconciled s' = reconciled s @ [(pg, r)] \<and>
           u pg = U_bulk_upd (recno s) (upd_base s) \<and> pg_flags pg = {WT_PAGE_BULK_LOAD} \<and>
           pg_type pg = page_type s \<and> parent_ref pg = Ref_slot (cref_addr s') (ref_next s)"
    and "recno s' = recno s + ins_cnt s" and "ref_next s' = Suc (ref_next s)"
    and "cref s' = (cref s)(ref_next s := recno s)" and "ref_next s < ref_entries s'"
  using assms
  by (auto simp: wt_bulk_col_page_def ext_defs Let_def page_zero_def split: if_splits prod.splits)

lemma row_page_flushed:
  assumes "wt_bulk_row_page env s = Inr (r, s')" and "ref_next s' \<noteq> ref_next s"
  shows "\<exists>pg. reconciled s' = reconciled s @ [(pg, r)] \<and>
           u pg = U_bulk_ins 0 (ins_base s) \<and> pg_flags pg = {WT_PAGE_BULK_LOAD} \<and>
           pg_type pg = WT_PAGE_ROW_LEAF \<and> parent_ref pg = Ref_slot (rref_addr s') (ref_next s)"
    and "ins_base s \<noteq> []" and "ref_next s' = Suc (ref_next s)"
    and "rref s' = (rref s)(ref_next s := ins_key (hd (ins_base s)))"
    and "ref_next s < ref_entries s'"
  using assms
  by (auto simp: wt_bulk_row_page_def ext_defs Let_def page_zero_def
      split: if_splits prod.splits list.splits)

lemma col_flush_recno:
  assumes inv: "col_inv h s" and fl: "wt_bulk_end_flush env s = Inr (0, s1)"
  shows "recno s1 = Suc (length h)"
proof -
  from inv have all: "list_all (\<lambda>e. length (body_upds (u (fst e))) = ipp s) (reconciled s)"
    by (simp add: col_inv_def list_all_iff)
  from inv have h: "concat (map (\<lambda>e. body_upds (u (fst e))) (reconciled s)) @ active_upd s = h"
    and cnt: "ins_cnt s = length (active_upd s)"
    and rn: "recno s = Suc (length (reconciled s) * ipp s)"
    by (simp_all add: col_inv_def)
  from length_concat_const [OF all] h cnt
  have hl: "length h = length (reconciled s) * ipp s + ins_cnt s" by auto
  show ?thesis
  proof (cases "ins_cnt s = 0")
    case True
    with fl have "s1 = s" by (simp add: wt_bulk_end_flush_def)
    with rn hl True show ?thesis by simp
  next
    case False
    from inv have "is_col_leaf (page_type s)" by (simp add: col_inv_def)
    with fl False have "wt_bulk_col_page env s = Inr (0, s1)"
      by (simp add: wt_bulk_end_flush_def)
    from col_page_zero(2) [OF this] rn hl show ?thesis by simp
  qed
qed

lemma leaf_ledger_nonempty:
  assumes led: "leaf_ledger k n s1" and k: "0 < k" and i: "i < length (reconciled s1)"
  shows "0 < body_len (u (fst (reconciled s1 ! i)))"
proof (cases "Suc i = length (reconciled s1)")
  case True
  then have ne: "reconciled s1 \<noteq> []" by auto
  from True have "i = length (reconciled s1) - 1" by simp
  with ne have "reconciled s1 \<noteq> []" "reconciled s1 ! i = last (reconciled s1)"
    by (simp_all add: last_conv_nth)
  with led show ?thesis by (auto simp: leaf_ledger_def)
next
  case False
  with i have "i < length (butlast (reconciled s1))" by simp
  then have "butlast (reconciled s1) ! i \<in> set (butlast (reconciled s1))" by (rule nth_mem)
  with led have "body_len (u (fst (butlast (reconciled s1) ! i))) = k"
    by (simp add: leaf_ledger_def list_all_iff)
  with k \<open>i < length (butlast (reconciled s1))\<close> show ?thesis by (simp add: nth_butlast)
qed

text \<open>
  Claim C5. Whenever \<^verbatim>\<open>__wt_bulk_col_page\<close> hands a page over, slot \<^verbatim>\<open>ref_next\<close>
  of \<^verbatim>\<open>cref\<close> holds the page's starting record number, and \<^verbatim>\<open>recno\<close> has advanced
  by \<^verbatim>\<open>ins_cnt\<close>, which is the number of records of the page when the count matches
  the list, as it does throughout a load. Whenever \<^verbatim>\<open>__wt_bulk_row_page\<close> hands a
  page over, slot \<^verbatim>\<open>ref_next\<close> of \<^verbatim>\<open>rref\<close> holds the key of the first record of the
  page's list. In a load that returns 0 every slot holds the starting record number
  (the key of the first record inserted) of its page, the pages hold the records in
  the order of the inserts, and \<^verbatim>\<open>recno\<close> ends at 1 plus the number of inserts.
\<close>
theorem child_reference_captured:
  "(\<forall>r s'. wt_bulk_col_page env s = Inr (r, s') \<and> ref_next s' \<noteq> ref_next s \<longrightarrow>
      (\<exists>pg. reconciled s' = reconciled s @ [(pg, r)] \<and>
            u pg = U_bulk_upd (recno s) (upd_base s) \<and>
            cref s' (ref_next s) = recno s \<and> ref_next s' = Suc (ref_next s) \<and>
            recno s' = recno s + ins_cnt s \<and>
            (ins_cnt s = length (upd_base s) \<longrightarrow>
               recno s' = recno s + length (body_upds (u pg))))) \<and>
   (\<forall>r s'. wt_bulk_row_page env s = Inr (r, s') \<and> ref_next s' \<noteq> ref_next s \<longrightarrow>
      (\<exists>pg first rest. reconciled s' = reconciled s @ [(pg, r)] \<and>
            ins_base s = first # rest \<and> u pg = U_bulk_ins 0 (first # rest) \<and>
            rref s' (ref_next s) = ins_key first \<and> ref_next s' = Suc (ref_next s))) \<and>
   (\<forall>kvs t'. col_begun t \<and> bulk_load env kvs t = Inr (0, t') \<longrightarrow>
      (\<forall>i<length (flushed t'). cref t' i = body_recno (u (flushed t' ! i))) \<and>
      recno t' = 1 + length kvs) \<and>
   (\<forall>kvs t'. row_begun t \<and> bulk_load env kvs t = Inr (0, t') \<longrightarrow>
      concat (map (\<lambda>p. body_ins (u p)) (flushed t')) =
        map (\<lambda>kv. \<lparr>ins_key = fst kv, ins_upd = Some (snd kv)\<rparr>) kvs \<and>
      (\<forall>i<length (flushed t').
         body_ins (u (flushed t' ! i)) \<noteq> [] \<and>
         rref t' i = ins_key (hd (body_ins (u (flushed t' ! i))))))"
proof -
  have A: "\<forall>r s'. wt_bulk_col_page env s = Inr (r, s') \<and> ref_next s' \<noteq> ref_next s \<longrightarrow>
      (\<exists>pg. reconciled s' = reconciled s @ [(pg, r)] \<and>
            u pg = U_bulk_upd (recno s) (upd_base s) \<and>
            cref s' (ref_next s) = recno s \<and> ref_next s' = Suc (ref_next s) \<and>
            recno s' = recno s + ins_cnt s \<and>
            (ins_cnt s = length (upd_base s) \<longrightarrow>
               recno s' = recno s + length (body_upds (u pg))))"
  proof (intro allI impI)
    fix r s' assume a: "wt_bulk_col_page env s = Inr (r, s') \<and> ref_next s' \<noteq> ref_next s"
    then have run: "wt_bulk_col_page env s = Inr (r, s')" and ne: "ref_next s' \<noteq> ref_next s"
      by simp_all
    note z = col_page_flushed [OF run ne]
    from z(1) obtain pg where "reconciled s' = reconciled s @ [(pg, r)]"
      "u pg = U_bulk_upd (recno s) (upd_base s)" by blast
    with z(2,3,4)
    show "\<exists>pg. reconciled s' = reconciled s @ [(pg, r)] \<and>
            u pg = U_bulk_upd (recno s) (upd_base s) \<and>
            cref s' (ref_next s) = recno s \<and> ref_next s' = Suc (ref_next s) \<and>
            recno s' = recno s + ins_cnt s \<and>
            (ins_cnt s = length (upd_base s) \<longrightarrow>
               recno s' = recno s + length (body_upds (u pg)))"
      by (intro exI [of _ pg]) simp
  qed
  have B: "\<forall>r s'. wt_bulk_row_page env s = Inr (r, s') \<and> ref_next s' \<noteq> ref_next s \<longrightarrow>
      (\<exists>pg first rest. reconciled s' = reconciled s @ [(pg, r)] \<and>
            ins_base s = first # rest \<and> u pg = U_bulk_ins 0 (first # rest) \<and>
            rref s' (ref_next s) = ins_key first \<and> ref_next s' = Suc (ref_next s))"
  proof (intro allI impI)
    fix r s' assume a: "wt_bulk_row_page env s = Inr (r, s') \<and> ref_next s' \<noteq> ref_next s"
    then have run: "wt_bulk_row_page env s = Inr (r, s')" and ne: "ref_next s' \<noteq> ref_next s"
      by simp_all
    note z = row_page_flushed [OF run ne]
    from z(1) obtain pg where pg: "reconciled s' = reconciled s @ [(pg, r)]"
      "u pg = U_bulk_ins 0 (ins_base s)" by blast
    from z(2) obtain first rest where fr: "ins_base s = first # rest" by (cases "ins_base s") auto
    from pg fr z(3,4)
    show "\<exists>pg first rest. reconciled s' = reconciled s @ [(pg, r)] \<and>
            ins_base s = first # rest \<and> u pg = U_bulk_ins 0 (first # rest) \<and>
            rref s' (ref_next s) = ins_key first \<and> ref_next s' = Suc (ref_next s)"
      by (intro exI [of _ pg] exI [of _ first] exI [of _ rest]) simp
  qed
  have C: "\<forall>kvs t'. col_begun t \<and> bulk_load env kvs t = Inr (0, t') \<longrightarrow>
      (\<forall>i<length (flushed t'). cref t' i = body_recno (u (flushed t' ! i))) \<and>
      recno t' = 1 + length kvs"
  proof (intro allI impI)
    fix kvs t' assume a: "col_begun t \<and> bulk_load env kvs t = Inr (0, t')"
    then have beg: "col_begun t" and run: "bulk_load env kvs t = Inr (0, t')" by simp_all
    from run obtain s2 where ins: "bulk_inserts env kvs t = Inr (0, s2)"
      and fin: "wt_bulk_end env s2 = Inr (0, t')"
      using bulk_load_zero by blast
    from col_inv_inserts [OF col_begun_inv [OF beg] ins]
    have inv: "col_inv (map snd kvs) s2" by simp
    have k: "ipp s2 = ipp t" using bulk_inserts_flags [OF ins] by simp
    from inv have "is_col_leaf (page_type s2) \<or> page_type s2 = WT_PAGE_ROW_LEAF"
      by (simp add: col_inv_def)
    from bulk_end_zero [OF fin this] obtain s1 where
      fl: "wt_bulk_end_flush env s2 = Inr (0, s1)" and
      t': "t' = s1\<lparr>calls := Suc (Suc (calls s1)), page_allocs := Suc (page_allocs s1),
                   root_page := \<lparr>ref_state = WT_REF_MEM, ref_addr = WT_ADDR_INVALID,
                      ref_size = 0, ref_page = Some (root_of s1)\<rparr>,
                   reconciled := reconciled s1 @ [(root_of s1, 0)]\<rparr>"
      by blast
    from col_flush_done [OF inv fl] k
    have led: "leaf_ledger (ipp t) (length kvs) s1" and con: "col_content (map snd kvs) (ipp t) s1"
      by simp_all
    from flushed_after_root [OF led] t' have P: "flushed t' = map fst (reconciled s1)" by simp
    have cr: "cref t' = cref s1" and rn: "recno t' = recno s1"
      by (subst t', simp)+
    from col_flush_recno [OF inv fl] rn have r: "recno t' = 1 + length kvs" by simp
    have "\<forall>i<length (flushed t'). cref t' i = body_recno (u (flushed t' ! i))"
      using con P cr by (simp add: col_content_def)
    then show "(\<forall>i<length (flushed t'). cref t' i = body_recno (u (flushed t' ! i))) \<and>
      recno t' = 1 + length kvs" using r ..
  qed
  have D: "\<forall>kvs t'. row_begun t \<and> bulk_load env kvs t = Inr (0, t') \<longrightarrow>
      concat (map (\<lambda>p. body_ins (u p)) (flushed t')) =
        map (\<lambda>kv. \<lparr>ins_key = fst kv, ins_upd = Some (snd kv)\<rparr>) kvs \<and>
      (\<forall>i<length (flushed t').
         body_ins (u (flushed t' ! i)) \<noteq> [] \<and>
         rref t' i = ins_key (hd (body_ins (u (flushed t' ! i)))))"
  proof (intro allI impI)
    fix kvs t' assume a: "row_begun t \<and> bulk_load env kvs t = Inr (0, t')"
    then have beg: "row_begun t" and run: "bulk_load env kvs t = Inr (0, t')" by simp_all
    let ?h = "map (\<lambda>kv. \<lparr>ins_key = fst kv, ins_upd = Some (snd kv)\<rparr>) kvs"
    from row_load_final [OF beg run] obtain s1 where
      led: "leaf_ledger (ipp t) (length kvs) s1" and con: "row_content ?h s1" and
      P: "flushed t' = map fst (reconciled s1)" and
      t': "t' = s1\<lparr>calls := Suc (Suc (calls s1)), page_allocs := Suc (page_allocs s1),
                   root_page := \<lparr>ref_state = WT_REF_MEM, ref_addr = WT_ADDR_INVALID,
                      ref_size = 0, ref_page = Some (root_of s1)\<rparr>,
                   reconciled := reconciled s1 @ [(root_of s1, 0)]\<rparr>"
      by blast
    have rr: "rref t' = rref s1" by (subst t') simp
    have k: "0 < ipp t" using beg by (simp add: row_begun_def)
    have cat: "concat (map (\<lambda>p. body_ins (u p)) (flushed t')) = ?h"
      using con P by (simp add: row_content_def comp_def)
    have each: "\<forall>i<length (flushed t').
         body_ins (u (flushed t' ! i)) \<noteq> [] \<and>
         rref t' i = ins_key (hd (body_ins (u (flushed t' ! i))))"
    proof (intro allI impI)
      fix i assume i: "i < length (flushed t')"
      with P have i': "i < length (reconciled s1)" by simp
      from leaf_ledger_nonempty [OF led k i']
      have "0 < body_len (u (fst (reconciled s1 ! i)))" .
      moreover from con i' have "body_upds (u (fst (reconciled s1 ! i))) = []"
        by (simp add: row_content_def list_all_length)
      ultimately have ne: "body_ins (u (flushed t' ! i)) \<noteq> []"
        using P i' by (simp add: body_len_def)
      from con i' P rr have "rref t' i = ins_key (hd (body_ins (u (flushed t' ! i))))"
        by (simp add: row_content_def)
      with ne show "body_ins (u (flushed t' ! i)) \<noteq> [] \<and>
         rref t' i = ins_key (hd (body_ins (u (flushed t' ! i))))" ..
    qed
    from cat each show "concat (map (\<lambda>p. body_ins (u p)) (flushed t')) = ?h \<and>
      (\<forall>i<length (flushed t').
         body_ins (u (flushed t' ! i)) \<noteq> [] \<and>
         rref t' i = ins_key (hd (body_ins (u (flushed t' ! i)))))" ..
  qed
  from A B C D show ?thesis by (intro conjI)
qed

theorem child_reference_captured_witness:
  "(\<exists>s'. wt_bulk_col_page (env_fail_at {})
             (col_linked ((started BTREE_COL_VAR 3)\<lparr>cur_value := ''10''\<rparr>)) = Inr (0, s') \<and>
      ref_next s' = 1 \<and> cref s' 0 = 1 \<and> recno s' = 2) \<and>
   row_begun (started BTREE_ROW 2) \<and>
   (\<exists>t'. bulk_load (env_fail_at {}) [(''a'', ''1''), (''b'', ''2''), (''c'', ''3'')]
            (started BTREE_ROW 2) = Inr (0, t') \<and>
      length (flushed t') = 2 \<and> rref t' 0 = ''a'' \<and> rref t' 1 = ''c'')"
proof -
  let ?e = "env_fail_at {}" and ?s = "started BTREE_ROW 2"
  let ?x = "col_linked ((started BTREE_COL_VAR 3)\<lparr>cur_value := ''10''\<rparr>)"
  let ?kvs = "[(''a'', ''1''), (''b'', ''2''), (''c'', ''3'')]"
  note t = child_reference_captured [of ?e ?x ?s]
  have x: "ref_next ?x = 0" "recno ?x = 1" "ins_cnt ?x = 1"
    by (simp_all add: col_linked_def example_defs run_defs)
  have "\<exists>s'. wt_bulk_col_page ?e ?x = Inr (0, s') \<and> ref_next s' = 1"
    by (simp add: col_linked_def active_upd_def example_defs run_defs)
  then obtain s' where pg: "wt_bulk_col_page ?e ?x = Inr (0, s')" and n1: "ref_next s' = 1"
    by (elim exE conjE)
  from n1 x have "wt_bulk_col_page ?e ?x = Inr (0, s') \<and> ref_next s' \<noteq> ref_next ?x"
    using pg by simp
  from t [THEN conjunct1, rule_format, OF this] x
  have a: "cref s' 0 = 1" "recno s' = 2" by auto
  have b: "row_begun ?s" by (simp add: row_begun_def example_defs run_defs)
  have ok: "all_ok ?e" by (simp add: all_ok_def env_fail_at_def)
  from row_load_ok [OF b ok, of ?kvs] obtain t' where run: "bulk_load ?e ?kvs ?s = Inr (0, t')"
    by (elim exE)
  from b run have "row_begun ?s \<and> bulk_load ?e ?kvs ?s = Inr (0, t')" ..
  note d = t [THEN conjunct2, THEN conjunct2, THEN conjunct2, rule_format, OF this]
  from run have v: "map (\<lambda>p. body_ins (u p)) (flushed t') =
      [[\<lparr>ins_key = ''a'', ins_upd = Some ''1''\<rparr>, \<lparr>ins_key = ''b'', ins_upd = Some ''2''\<rparr>],
       [\<lparr>ins_key = ''c'', ins_upd = Some ''3''\<rparr>]]"
    by (auto simp: flushed_def example_defs run_defs)
  then have len: "length (flushed t') = 2"
    and h0: "body_ins (u (flushed t' ! 0)) =
       [\<lparr>ins_key = ''a'', ins_upd = Some ''1''\<rparr>, \<lparr>ins_key = ''b'', ins_upd = Some ''2''\<rparr>]"
    and h1: "body_ins (u (flushed t' ! 1)) = [\<lparr>ins_key = ''c'', ins_upd = Some ''3''\<rparr>]"
    by (auto simp: map_eq_Cons_conv)
  from d [THEN conjunct2, rule_format, of 0] len h0 have r0: "rref t' 0 = ''a''" by simp
  from d [THEN conjunct2, rule_format, of 1] len h1 have r1: "rref t' 1 = ''c''" by simp
  show ?thesis
    by (intro conjI exI [of _ s'] exI [of _ t']) (rule pg n1 a b run len r0 r1)+
qed

subsection \<open>Growth of the reference array\<close>

lemma chunk_slots_smallest:
  assumes re: "re = 1000 * ((n + 999) div 1000)" and n: "0 < (n::nat)"
  shows "smallest_chunk_multiple re n"
proof -
  define q where "q = (n + 999) div 1000"
  have lo: "1000 * q \<le> n + 999" and hi: "n + 999 < 1000 * q + 1000"
    unfolding q_def by linarith+
  from n hi have q: "0 < q" by (cases q) simp_all
  have "\<And>c'. 0 < c' \<Longrightarrow> 1000 dvd c' \<Longrightarrow> n \<le> c' \<Longrightarrow> re \<le> c'"
  proof -
    fix c' :: nat assume "0 < c'" and d: "1000 dvd c'" and le: "n \<le> c'"
    from d obtain j where j: "c' = 1000 * j" ..
    from le j have "n + 999 \<le> 1000 * j + 999" by simp
    then have "(n + 999) div 1000 \<le> (1000 * j + 999) div 1000" by (rule div_le_mono)
    then have "q \<le> j" unfolding q_def by simp
    with re j q_def show "re \<le> c'" by simp
  qed
  moreover from re q q_def have "0 < re" "1000 dvd re" by simp_all
  moreover from chunk_slots_le [OF re] have "n \<le> re" .
  ultimately show ?thesis unfolding smallest_chunk_multiple_def by blast
qed

lemma col_page_growth:
  assumes "wt_bulk_col_page env s = Inr (r, s')"
  shows "ref_next s = ref_entries s \<Longrightarrow> ext_ret env (calls s) = 0 \<Longrightarrow>
           ref_entries s' = ref_entries s + 1000 \<and>
           ref_allocated s' = (ref_entries s + 1000) * sizeof_cref env"
    and "ref_next s = ref_entries s \<Longrightarrow> ext_ret env (calls s) \<noteq> 0 \<Longrightarrow>
           r = ext_ret env (calls s) \<and> s' = s\<lparr>calls := Suc (calls s)\<rparr>"
    and "ref_next s \<noteq> ref_entries s \<Longrightarrow>
           ref_entries s' = ref_entries s \<and> ref_allocated s' = ref_allocated s \<and>
           cref_addr s' = cref_addr s"
    and "rref_addr s' = rref_addr s"
    and "ref_entries s' = ref_entries s \<Longrightarrow> cref_addr s' = cref_addr s"
    and "ref_entries s \<le> ref_entries s'"
  using assms
  by (auto simp: wt_bulk_col_page_def ext_defs Let_def split: if_splits prod.splits)

lemma row_page_growth:
  assumes "wt_bulk_row_page env s = Inr (r, s')"
  shows "ref_next s = ref_entries s \<Longrightarrow> ext_ret env (calls s) = 0 \<Longrightarrow>
           ref_entries s' = ref_entries s + 1000 \<and>
           ref_allocated s' = (ref_entries s + 1000) * sizeof_rref env"
    and "ref_next s = ref_entries s \<Longrightarrow> ext_ret env (calls s) \<noteq> 0 \<Longrightarrow>
           r = ext_ret env (calls s) \<and> s' = s\<lparr>calls := Suc (calls s)\<rparr>"
    and "ref_next s \<noteq> ref_entries s \<Longrightarrow>
           ref_entries s' = ref_entries s \<and> ref_allocated s' = ref_allocated s \<and>
           rref_addr s' = rref_addr s"
    and "cref_addr s' = cref_addr s"
    and "ref_entries s' = ref_entries s \<Longrightarrow> rref_addr s' = rref_addr s"
    and "ref_entries s \<le> ref_entries s'"
  using assms
  by (auto simp: wt_bulk_row_page_def ext_defs Let_def split: if_splits prod.splits list.splits)

lemma inserts_capacity:
  assumes beg: "col_begun t \<or> row_begun t" and ins: "bulk_inserts env kvs t = Inr (0, t')"
  shows "ref_entries t' = 1000 * ((ref_next t' + 999) div 1000)"
proof -
  from beg show ?thesis
  proof
    assume "col_begun t"
    from col_inv_inserts [OF col_begun_inv [OF this] ins] show ?thesis
      by (simp add: col_inv_def)
  next
    assume "row_begun t"
    from row_inv_inserts [OF row_begun_inv [OF this] ins] show ?thesis
      by (simp add: row_inv_def)
  qed
qed

lemma load_capacity:
  assumes beg: "col_begun t \<or> row_begun t" and run: "bulk_load env kvs t = Inr (0, t')"
  shows "ref_entries t' = 1000 * ((ref_next t' + 999) div 1000)"
proof -
  from load_ledger [OF beg run] obtain s1 where
    "leaf_ledger (ipp t) (length kvs) s1" "ref_next t' = ref_next s1"
    "ref_entries t' = ref_entries s1" by blast
  then show ?thesis by (simp add: leaf_ledger_def)
qed

text \<open>
  Claim C8, amended. A rotation asks for a reallocation exactly when \<^verbatim>\<open>ref_next\<close>
  equals \<^verbatim>\<open>ref_entries\<close>: when it succeeds the array has 1000 more slots, when it
  fails the rotation returns its code and changes nothing else; otherwise the array,
  its size and its address are as before. Between the calls of a load that have all
  returned 0, \<^verbatim>\<open>ref_entries\<close> is the smallest multiple of 1000 that is at least the
  number of flushed pages: 0 as long as no page is flushed, the smallest positive
  multiple from the first flush on.
\<close>
theorem ref_array_growth:
  "(\<forall>r s'. wt_bulk_col_page env s = Inr (r, s') \<longrightarrow>
      (ref_next s = ref_entries s \<and> ext_ret env (calls s) = 0 \<longrightarrow>
         ref_entries s' = ref_entries s + 1000 \<and>
         ref_allocated s' = (ref_entries s + 1000) * sizeof_cref env) \<and>
      (ref_next s = ref_entries s \<and> ext_ret env (calls s) \<noteq> 0 \<longrightarrow>
         r = ext_ret env (calls s) \<and> s' = s\<lparr>calls := Suc (calls s)\<rparr>) \<and>
      (ref_next s \<noteq> ref_entries s \<longrightarrow>
         ref_entries s' = ref_entries s \<and> ref_allocated s' = ref_allocated s \<and>
         cref_addr s' = cref_addr s)) \<and>
   (\<forall>r s'. wt_bulk_row_page env s = Inr (r, s') \<longrightarrow>
      (ref_next s = ref_entries s \<and> ext_ret env (calls s) = 0 \<longrightarrow>
         ref_entries s' = ref_entries s + 1000 \<and>
         ref_allocated s' = (ref_entries s + 1000) * sizeof_rref env) \<and>
      (ref_next s = ref_entries s \<and> ext_ret env (calls s) \<noteq> 0 \<longrightarrow>
         r = ext_ret env (calls s) \<and> s' = s\<lparr>calls := Suc (calls s)\<rparr>) \<and>
      (ref_next s \<noteq> ref_entries s \<longrightarrow>
         ref_entries s' = ref_entries s \<and> ref_allocated s' = ref_allocated s \<and>
         rref_addr s' = rref_addr s)) \<and>
   (\<forall>kvs t'. (col_begun t \<or> row_begun t) \<and>
        (bulk_inserts env kvs t = Inr (0, t') \<or> bulk_load env kvs t = Inr (0, t')) \<longrightarrow>
      ref_entries t' = 1000 * ((ref_next t' + 999) div 1000) \<and>
      (ref_next t' = 0 \<longrightarrow> ref_entries t' = 0) \<and>
      (0 < ref_next t' \<longrightarrow> smallest_chunk_multiple (ref_entries t') (ref_next t')))"
proof -
  have A: "\<forall>r s'. wt_bulk_col_page env s = Inr (r, s') \<longrightarrow>
      (ref_next s = ref_entries s \<and> ext_ret env (calls s) = 0 \<longrightarrow>
         ref_entries s' = ref_entries s + 1000 \<and>
         ref_allocated s' = (ref_entries s + 1000) * sizeof_cref env) \<and>
      (ref_next s = ref_entries s \<and> ext_ret env (calls s) \<noteq> 0 \<longrightarrow>
         r = ext_ret env (calls s) \<and> s' = s\<lparr>calls := Suc (calls s)\<rparr>) \<and>
      (ref_next s \<noteq> ref_entries s \<longrightarrow>
         ref_entries s' = ref_entries s \<and> ref_allocated s' = ref_allocated s \<and>
         cref_addr s' = cref_addr s)"
    using col_page_growth(1,2,3) [of env s] by blast
  have B: "\<forall>r s'. wt_bulk_row_page env s = Inr (r, s') \<longrightarrow>
      (ref_next s = ref_entries s \<and> ext_ret env (calls s) = 0 \<longrightarrow>
         ref_entries s' = ref_entries s + 1000 \<and>
         ref_allocated s' = (ref_entries s + 1000) * sizeof_rref env) \<and>
      (ref_next s = ref_entries s \<and> ext_ret env (calls s) \<noteq> 0 \<longrightarrow>
         r = ext_ret env (calls s) \<and> s' = s\<lparr>calls := Suc (calls s)\<rparr>) \<and>
      (ref_next s \<noteq> ref_entries s \<longrightarrow>
         ref_entries s' = ref_entries s \<and> ref_allocated s' = ref_allocated s \<and>
         rref_addr s' = rref_addr s)"
    using row_page_growth(1,2,3) [of env s] by blast
  have C: "\<forall>kvs t'. (col_begun t \<or> row_begun t) \<and>
        (bulk_inserts env kvs t = Inr (0, t') \<or> bulk_load env kvs t = Inr (0, t')) \<longrightarrow>
      ref_entries t' = 1000 * ((ref_next t' + 999) div 1000) \<and>
      (ref_next t' = 0 \<longrightarrow> ref_entries t' = 0) \<and>
      (0 < ref_next t' \<longrightarrow> smallest_chunk_multiple (ref_entries t') (ref_next t'))"
  proof (intro allI impI)
    fix kvs t'
    assume a: "(col_begun t \<or> row_begun t) \<and>
        (bulk_inserts env kvs t = Inr (0, t') \<or> bulk_load env kvs t = Inr (0, t'))"
    then have re: "ref_entries t' = 1000 * ((ref_next t' + 999) div 1000)"
      using inserts_capacity [of t env kvs t'] load_capacity [of t env kvs t'] by blast
    then have z: "ref_next t' = 0 \<longrightarrow> ref_entries t' = 0" by simp
    from re have "0 < ref_next t' \<longrightarrow> smallest_chunk_multiple (ref_entries t') (ref_next t')"
      using chunk_slots_smallest by blast
    with re z show "ref_entries t' = 1000 * ((ref_next t' + 999) div 1000) \<and>
      (ref_next t' = 0 \<longrightarrow> ref_entries t' = 0) \<and>
      (0 < ref_next t' \<longrightarrow> smallest_chunk_multiple (ref_entries t') (ref_next t'))"
      by (intro conjI)
  qed
  from A B C show ?thesis by (intro conjI)
qed

text \<open>
  Claim C8 as stated fails before the first flush: right after \<^verbatim>\<open>__wt_bulk_init\<close>,
  and after a whole load without inserts, no page is flushed and the array has no
  slots, where the smallest positive multiple of 1000 is 1000.
\<close>
theorem ref_array_capacity_counterexample:
  "wt_bulk_init (env_fail_at {}) (new_cursor BTREE_ROW) = Inr (0, started BTREE_ROW 50000) \<and>
   ref_next (started BTREE_ROW 50000) = 0 \<and> ref_entries (started BTREE_ROW 50000) = 0 \<and>
   \<not> smallest_chunk_multiple (ref_entries (started BTREE_ROW 50000))
        (ref_next (started BTREE_ROW 50000)) \<and>
   (case bulk_load (env_fail_at {}) [] (started BTREE_ROW 50000) of
      Inl f \<Rightarrow> False
    | Inr (r, s') \<Rightarrow>
        r = 0 \<and> flushed s' = [] \<and> ref_next s' = 0 \<and> ref_entries s' = 0 \<and>
        \<not> smallest_chunk_multiple (ref_entries s') (ref_next s'))"
  by (simp add: smallest_chunk_multiple_def flushed_def example_defs run_defs)

theorem ref_array_growth_witness:
  "(\<exists>s'. wt_bulk_col_page (env_fail_at {})
             (col_linked ((started BTREE_COL_VAR 3)\<lparr>cur_value := ''10''\<rparr>)) = Inr (0, s') \<and>
      ref_entries s' = 1000 \<and> ref_allocated s' = 24000) \<and>
   col_begun (started BTREE_COL_VAR 3) \<and>
   (\<exists>t'. bulk_inserts (env_fail_at {})
            [([], ''10''), ([], ''20''), ([], ''30''), ([], ''40'')]
            (started BTREE_COL_VAR 3) = Inr (0, t') \<and>
      ref_next t' = 1 \<and> ref_entries t' = 1000 \<and>
      smallest_chunk_multiple (ref_entries t') (ref_next t'))"
proof -
  let ?e = "env_fail_at {}" and ?s = "started BTREE_COL_VAR 3"
  let ?x = "col_linked ((started BTREE_COL_VAR 3)\<lparr>cur_value := ''10''\<rparr>)"
  let ?kvs = "[([], ''10''), ([], ''20''), ([], ''30''), ([], ''40'')]"
  note t = ref_array_growth [of ?e ?x ?s]
  have x: "ref_next ?x = ref_entries ?x \<and> ext_ret ?e (calls ?x) = 0" "ref_entries ?x = 0"
    "sizeof_cref ?e = 24"
    by (simp_all add: col_linked_def example_defs run_defs)
  have "\<exists>s'. wt_bulk_col_page ?e ?x = Inr (0, s')"
    by (simp add: col_linked_def active_upd_def example_defs run_defs)
  then obtain s' where pg: "wt_bulk_col_page ?e ?x = Inr (0, s')" by (elim exE)
  from t [THEN conjunct1, rule_format, OF pg, THEN conjunct1, rule_format, OF x(1)] x(2,3)
  have a: "ref_entries s' = 1000" "ref_allocated s' = 24000" by simp_all
  have b: "col_begun ?s" by (simp add: col_begun_def example_defs run_defs)
  have "\<exists>t'. bulk_inserts ?e ?kvs ?s = Inr (0, t') \<and> ref_next t' = 1"
    by (simp add: example_defs run_defs)
  then obtain t' where run: "bulk_inserts ?e ?kvs ?s = Inr (0, t')" and n: "ref_next t' = 1"
    by (elim exE conjE)
  from b run have "(col_begun ?s \<or> row_begun ?s) \<and>
      (bulk_inserts ?e ?kvs ?s = Inr (0, t') \<or> bulk_load ?e ?kvs ?s = Inr (0, t'))" by simp
  note c = t [THEN conjunct2, THEN conjunct2, rule_format, OF this]
  from c n have re: "ref_entries t' = 1000" by simp
  from c n have sm: "smallest_chunk_multiple (ref_entries t') (ref_next t')" by auto
  show ?thesis
    by (intro conjI exI [of _ s'] exI [of _ t']) (rule pg a b run n re sm)+
qed

subsection \<open>Back-references into the reference array\<close>

lemma tracks_refl: "tracks s s"
  by (simp add: tracks_def)

lemma tracks_trans: "tracks a b \<Longrightarrow> tracks b c \<Longrightarrow> tracks a c"
  by (auto simp: tracks_def)

lemma col_page_tracks:
  assumes "wt_bulk_col_page env s = Inr (r, s')"
  shows "tracks s s'"
  using assms
  by (auto simp: tracks_def wt_bulk_col_page_def ext_defs Let_def split: if_splits prod.splits)

lemma row_page_tracks:
  assumes "wt_bulk_row_page env s = Inr (r, s')"
  shows "tracks s s'"
  using assms
  by (auto simp: tracks_def wt_bulk_row_page_def ext_defs Let_def
      split: if_splits prod.splits list.splits)

lemma bulk_col_tracks:
  assumes "wt_bulk_col env s = Inr (r, s')"
  shows "tracks s s'"
proof -
  have "\<And>t r s'. wt_bulk_col_page env t = Inr (r, s') \<Longrightarrow> tracks t s'"
    by (rule col_page_tracks)
  with assms show ?thesis
    by (fastforce simp: wt_bulk_col_def ext_defs link_store_def Let_def tracks_def
        split: if_splits prod.splits sum.splits link.splits)
qed

lemma bulk_row_tracks:
  assumes "wt_bulk_row env s = Inr (r, s')"
  shows "tracks s s'"
proof -
  have "\<And>t r s'. wt_bulk_row_page env t = Inr (r, s') \<Longrightarrow> tracks t s'"
    by (rule row_page_tracks)
  with assms show ?thesis
    by (fastforce simp: wt_bulk_row_def ext_defs link_store_def Let_def wt_bulk_row_err_def
        tracks_def split: if_splits prod.splits sum.splits link.splits)
qed

lemma bulk_insert_tracks:
  assumes "wt_bulk_insert env s = Inr (r, s')"
  shows "tracks s s'"
  using assms bulk_col_tracks [of env s] bulk_row_tracks [of env s]
  by (auto simp: wt_bulk_insert_def wt_illegal_format_def stat_incr_items_inserted_def
      tracks_def split: if_splits sum.splits prod.splits)

lemma bulk_inserts_tracks:
  "bulk_inserts env kvs s = Inr (r, s') \<Longrightarrow> tracks s s'"
proof (induction kvs arbitrary: s)
  case Nil
  then show ?case by (simp add: tracks_refl)
next
  case (Cons kv kvs)
  let ?s = "s\<lparr>cur_key := fst kv, cur_value := snd kv\<rparr>"
  have t0: "tracks s ?s" by (simp add: tracks_def)
  show ?case
  proof (cases "wt_bulk_insert env ?s")
    case (Inl f)
    with Cons.prems show ?thesis by simp
  next
    case (Inr p)
    obtain r1 s1 where p: "p = (r1, s1)" by (cases p)
    from bulk_insert_tracks [OF Inr [unfolded p]] t0 have t1: "tracks s s1"
      using tracks_trans by blast
    show ?thesis
    proof (cases "r1 = 0")
      case True
      with Cons.prems Inr p have "bulk_inserts env kvs s1 = Inr (r, s')" by simp
      from Cons.IH [OF this] t1 show ?thesis using tracks_trans by blast
    next
      case False
      with Cons.prems Inr p t1 show ?thesis by auto
    qed
  qed
qed

lemma bulk_end_tracks:
  assumes "wt_bulk_end env s = Inr (r, s')"
  shows "tracks s s'"
proof (cases "wt_bulk_end_flush env s")
  case (Inl f)
  with assms show ?thesis by (simp add: wt_bulk_end_def)
next
  case (Inr p)
  obtain r1 s1 where p: "p = (r1, s1)" by (cases p)
  from Inr p have t1: "tracks s s1"
    using col_page_tracks [of env s r1 s1] row_page_tracks [of env s r1 s1]
    by (auto simp: wt_bulk_end_flush_def tracks_refl split: if_splits)
  show ?thesis
  proof (cases "r1 = 0")
    case True
    with Inr p have fl: "wt_bulk_end_flush env s = Inr (0, s1)" by simp
    have "tracks s1 s'"
      using assms unfolding bulk_end_after_flush [OF fl]
      by (auto simp: tracks_def split: if_splits)
    with t1 show ?thesis using tracks_trans by blast
  next
    case False
    with Inr p assms bulk_end_flush_failed [of env s r1 s1] have "s' = s1" by simp
    with t1 show ?thesis by simp
  qed
qed

lemma bulk_inserts_append:
  "bulk_inserts env xs s = Inr (0, s1) \<Longrightarrow>
     bulk_inserts env (xs @ ys) s = bulk_inserts env ys s1"
proof (induction xs arbitrary: s)
  case Nil
  then show ?case by simp
next
  case (Cons x xs)
  then show ?case by (auto split: sum.splits prod.splits if_splits)
qed

lemma col_inv_counts:
  assumes "col_inv h s"
  shows "length h = ref_next s * ipp s + ins_cnt s" and "ins_cnt s < ipp s"
proof -
  from assms have all: "list_all (\<lambda>e. length (body_upds (u (fst e))) = ipp s) (reconciled s)"
    by (simp add: col_inv_def list_all_iff)
  from assms have h: "concat (map (\<lambda>e. body_upds (u (fst e))) (reconciled s)) @ active_upd s = h"
    and cnt: "ins_cnt s = length (active_upd s)" and n: "ref_next s = length (reconciled s)"
    by (simp_all add: col_inv_def)
  from length_concat_const [OF all] h cnt n
  show "length h = ref_next s * ipp s + ins_cnt s" by auto
  from assms show "ins_cnt s < ipp s" by (simp add: col_inv_def)
qed

lemma quot_rem_unique:
  assumes "a * k + c = b * k + (d::nat)" and "c < k" and "d < k"
  shows "a = b \<and> c = d"
proof -
  from assms(2) have k: "0 < k" by simp
  have "(a * k + c) div k = a" using assms(2) by simp
  moreover have "(b * k + d) div k = b" using assms(3) by simp
  ultimately have "a = b" using assms(1) by simp
  with assms(1) show ?thesis by simp
qed

lemma col_page_moves:
  assumes "wt_bulk_col_page env s = Inr (0, s')" and "ref_next s = ref_entries s"
    and "realloc_moves env (calls s)"
  shows "cref_addr s' = Suc (next_addr s)"
  using assms
  by (auto simp: wt_bulk_col_page_def ext_defs Let_def split: if_splits prod.splits)

lemma col_completing_insert:
  assumes inv: "col_inv h s" and full: "Suc (ins_cnt s) = ipp s"
    and run: "wt_bulk_insert env (s\<lparr>cur_key := k, cur_value := v\<rparr>) = Inr (0, s')"
  shows "\<exists>pg. reconciled s' \<noteq> [] \<and> last (reconciled s') = (pg, 0) \<and>
           parent_ref pg = Ref_slot (cref_addr s') (ref_next s) \<and> ref_next s < ref_entries s'"
    and "ref_next s = ref_entries s \<Longrightarrow> realloc_moves env (Suc (calls s)) \<Longrightarrow>
           cref_addr s' = Suc (next_addr s)"
proof -
  let ?s = "s\<lparr>cur_key := k, cur_value := v\<rparr>"
  from inv have leaf: "is_col_leaf (page_type ?s)" by (simp add: col_inv_def)
  from run obtain t where t: "wt_bulk_col env ?s = Inr (0, t)"
    and s': "s' = stat_incr_items_inserted t"
    using bulk_insert_col [OF leaf] by blast
  from t full have pg: "wt_bulk_col_page env (col_linked ?s) = Inr (0, t)"
    using bulk_col_step_flush [of env ?s t] by simp
  note z = col_page_zero [OF pg]
  from z(1) obtain pg where "reconciled t = reconciled (col_linked ?s) @ [(pg, 0)]"
    "parent_ref pg = Ref_slot (cref_addr t) (ref_next (col_linked ?s))" by blast
  with z(8) s'
  show "\<exists>pg. reconciled s' \<noteq> [] \<and> last (reconciled s') = (pg, 0) \<and>
           parent_ref pg = Ref_slot (cref_addr s') (ref_next s) \<and> ref_next s < ref_entries s'"
    by (intro exI [of _ pg]) (simp add: stat_incr_items_inserted_def col_linked_def)
  assume "ref_next s = ref_entries s" and "realloc_moves env (Suc (calls s))"
  then have "ref_next (col_linked ?s) = ref_entries (col_linked ?s)"
    "realloc_moves env (calls (col_linked ?s))"
    by (simp_all add: col_linked_def)
  from col_page_moves [OF pg this] s'
  show "cref_addr s' = Suc (next_addr s)"
    by (simp add: stat_incr_items_inserted_def col_linked_def)
qed

lemma back_ref_goes_stale:
  assumes beg: "col_begun s" and ok: "all_ok env" and mv: "\<forall>n. realloc_moves env n"
    and ad: "cref_addr s \<le> next_addr s"
  shows "\<exists>s1 s2 pg.
           bulk_inserts env (replicate (1000 * ipp s) kv) s = Inr (0, s1) \<and>
           reconciled s1 \<noteq> [] \<and> last (reconciled s1) = (pg, 0) \<and>
           slot_live s1 (parent_ref pg) \<and>
           bulk_inserts env (replicate (ipp s) kv) s1 = Inr (0, s2) \<and>
           \<not> slot_live s2 (parent_ref pg)"
proof -
  define k where "k = ipp s"
  from beg have k: "0 < k" by (simp add: col_begun_def k_def)
  define N where "N = 1000 * k - 1"
  from k have N: "1000 * k = Suc N" and N': "N = 999 * k + (k - 1)" by (simp_all add: N_def)
  have spl: "replicate (Suc N) kv = replicate N kv @ [kv]"
    by (simp add: replicate_append_same)
  note inv0 = col_begun_inv [OF beg]
  \<comment> \<open>all the inserts but the last of the first thousand pages\<close>
  from col_inserts_ok [OF inv0 ok] obtain sa where
    a: "bulk_inserts env (replicate N kv) s = Inr (0, sa)" by blast
  from col_inv_inserts [OF inv0 a] have inva: "col_inv (map snd (replicate N kv)) sa" by simp
  have ka: "ipp sa = k" using bulk_inserts_flags [OF a] by (simp add: k_def)
  from col_inv_counts [OF inva] ka N'
  have "ref_next sa * k + ins_cnt sa = 999 * k + (k - 1)" "ins_cnt sa < k" by simp_all
  moreover from k have "k - 1 < k" by simp
  ultimately have ca: "ref_next sa = 999 \<and> ins_cnt sa = k - 1" by (rule quot_rem_unique)
  with k ka have fulla: "Suc (ins_cnt sa) = ipp sa" by simp
  \<comment> \<open>the insert that flushes page 1000\<close>
  let ?sa = "sa\<lparr>cur_key := fst kv, cur_value := snd kv\<rparr>"
  from col_insert_ok [OF inva ok] obtain s1 where
    i1: "wt_bulk_insert env ?sa = Inr (0, s1)" by blast
  then have one: "bulk_inserts env [kv] sa = Inr (0, s1)" by simp
  from bulk_inserts_append [OF a, of "[kv]"] one spl N
  have run1: "bulk_inserts env (replicate (1000 * ipp s) kv) s = Inr (0, s1)"
    by (simp add: k_def)
  from col_inv_step [OF inva i1] have inv1: "col_inv (map snd (replicate N kv) @ [snd kv]) s1" .
  from col_completing_insert(1) [OF inva fulla i1] ca obtain pg where
    ne: "reconciled s1 \<noteq> []" and lst: "last (reconciled s1) = (pg, 0)" and
    pr: "parent_ref pg = Ref_slot (cref_addr s1) 999" and lt: "999 < ref_entries s1"
    by auto
  from inv1 have leaf1: "is_col_leaf (page_type s1)" by (simp add: col_inv_def)
  from pr lt leaf1 have live: "slot_live s1 (parent_ref pg)" by (simp add: slot_live_def)
  have k1: "ipp s1 = k" using bulk_inserts_flags [OF run1] by (simp add: k_def)
  from col_inv_counts [OF inv1] k1 N
  have "ref_next s1 * k + ins_cnt s1 = 1000 * k + 0" "ins_cnt s1 < k" by simp_all
  then have c1: "ref_next s1 = 1000 \<and> ins_cnt s1 = 0" using k by (rule quot_rem_unique)
  from bulk_inserts_tracks [OF run1] ad have ad1: "cref_addr s1 \<le> next_addr s1"
    by (simp add: tracks_def)
  \<comment> \<open>the inserts of page 1001 but the last\<close>
  obtain k' where k': "k = Suc k'" using k by (cases k) simp_all
  have spl2: "replicate (Suc k') kv = replicate k' kv @ [kv]"
    by (simp add: replicate_append_same)
  from col_inserts_ok [OF inv1 ok] obtain sb where
    b: "bulk_inserts env (replicate k' kv) s1 = Inr (0, sb)" by blast
  from col_inv_inserts [OF inv1 b] obtain hb where invb: "col_inv hb sb"
    and lb: "length hb = Suc N + k'" by auto
  have kb: "ipp sb = k" using bulk_inserts_flags [OF b] k1 by simp
  from col_inv_counts [OF invb] kb lb N
  have "ref_next sb * k + ins_cnt sb = 1000 * k + k'" "ins_cnt sb < k" by simp_all
  moreover have "k' < k" using k' by simp
  ultimately have cb: "ref_next sb = 1000 \<and> ins_cnt sb = k'" by (rule quot_rem_unique)
  with k' kb have fullb: "Suc (ins_cnt sb) = ipp sb" by simp
  from invb cb have eb: "ref_next sb = ref_entries sb" by (simp add: col_inv_def)
  from bulk_inserts_tracks [OF b] have nb: "next_addr s1 \<le> next_addr sb"
    by (simp add: tracks_def)
  \<comment> \<open>the insert that flushes page 1001: the array grows and moves\<close>
  let ?sb = "sb\<lparr>cur_key := fst kv, cur_value := snd kv\<rparr>"
  from col_insert_ok [OF invb ok] obtain s2 where
    i2: "wt_bulk_insert env ?sb = Inr (0, s2)" by blast
  then have "bulk_inserts env [kv] sb = Inr (0, s2)" by simp
  with bulk_inserts_append [OF b, of "[kv]"] spl2 k'
  have run2: "bulk_inserts env (replicate (ipp s) kv) s1 = Inr (0, s2)"
    by (simp add: k_def)
  from mv have "realloc_moves env (Suc (calls sb))" by simp
  from col_completing_insert(2) [OF invb fullb i2 eb this]
  have "cref_addr s2 = Suc (next_addr sb)" .
  with nb ad1 have "cref_addr s2 \<noteq> cref_addr s1" by simp
  moreover from col_inv_step [OF invb i2] have "is_col_leaf (page_type s2)"
    by (simp add: col_inv_def)
  ultimately have stale: "\<not> slot_live s2 (parent_ref pg)"
    using pr by (simp add: slot_live_def)
  show ?thesis
    by (intro exI [of _ s1] exI [of _ s2] exI [of _ pg] conjI)
       (rule run1 ne lst live run2 stale)+
qed

text \<open>
  Claim C7 as stated fails when the array grows. After \<^verbatim>\<open>__wt_bulk_init\<close> and 1000
  full pages, the back-reference of page 1000 points into the array; the next full page
  makes \<^verbatim>\<open>__wt_realloc\<close> grow the array, the allocator moves it, and the
  back-reference no longer designates a slot of the array.
\<close>
theorem back_ref_stable_counterexample:
  "wt_bulk_init (env_fail_at {}) (new_cursor BTREE_COL_VAR) =
     Inr (0, started BTREE_COL_VAR 50000) \<and>
   ipp (started BTREE_COL_VAR 50000) = 50000 \<and>
   (\<exists>s1 s2 pg.
      bulk_inserts (env_fail_at {})
        (replicate (1000 * ipp (started BTREE_COL_VAR 50000)) ([], ''v''))
        (started BTREE_COL_VAR 50000) = Inr (0, s1) \<and>
      reconciled s1 \<noteq> [] \<and> last (reconciled s1) = (pg, 0) \<and>
      slot_live s1 (parent_ref pg) \<and>
      bulk_inserts (env_fail_at {})
        (replicate (ipp (started BTREE_COL_VAR 50000)) ([], ''v'')) s1 = Inr (0, s2) \<and>
      \<not> slot_live s2 (parent_ref pg))"
proof -
  let ?e = "env_fail_at {}" and ?s = "started BTREE_COL_VAR 50000"
  have i: "wt_bulk_init ?e (new_cursor BTREE_COL_VAR) = Inr (0, ?s)"
    by (simp add: example_defs run_defs)
  have k: "ipp ?s = 50000" by (simp add: example_defs run_defs)
  have b: "col_begun ?s" by (simp add: col_begun_def example_defs run_defs)
  have ok: "all_ok ?e" by (simp add: all_ok_def env_fail_at_def)
  have mv: "\<forall>n. realloc_moves ?e n" by (simp add: env_fail_at_def)
  have ad: "cref_addr ?s \<le> next_addr ?s" by (simp add: example_defs run_defs)
  note st = back_ref_goes_stale [OF b ok mv ad, of "([], ''v'')"]
  show ?thesis by (intro conjI) (rule i k st)+
qed

text \<open>
  Claim C7, amended. The back-reference of a page that a rotation hands over is the
  address of slot \<^verbatim>\<open>ref_next\<close> of the reference array as it is allocated at that
  moment, the slot that just received the page's record number or first key, and it
  designates a slot of the array when reconciliation is called. It keeps doing so
  through every later insert and through the end as long as the array does not grow.
\<close>
theorem back_ref_live_until_growth:
  "(\<forall>r s'. is_col_leaf (page_type s) \<and> wt_bulk_col_page env s = Inr (r, s') \<and>
        ref_next s' \<noteq> ref_next s \<longrightarrow>
      (\<exists>pg. reconciled s' = reconciled s @ [(pg, r)] \<and>
            parent_ref pg = Ref_slot (cref_addr s') (ref_next s) \<and>
            cref s' (ref_next s) = recno s \<and> slot_live s' (parent_ref pg))) \<and>
   (\<forall>r s'. page_type s = WT_PAGE_ROW_LEAF \<and> wt_bulk_row_page env s = Inr (r, s') \<and>
        ref_next s' \<noteq> ref_next s \<longrightarrow>
      (\<exists>pg. reconciled s' = reconciled s @ [(pg, r)] \<and>
            parent_ref pg = Ref_slot (rref_addr s') (ref_next s) \<and>
            rref s' (ref_next s) = ins_key (hd (ins_base s)) \<and>
            slot_live s' (parent_ref pg))) \<and>
   (\<forall>p r s'. slot_live s p \<and>
        (wt_bulk_insert env s = Inr (r, s') \<or> wt_bulk_end env s = Inr (r, s')) \<and>
        ref_entries s' = ref_entries s \<longrightarrow>
      slot_live s' p)"
proof -
  have A: "\<forall>r s'. is_col_leaf (page_type s) \<and> wt_bulk_col_page env s = Inr (r, s') \<and>
        ref_next s' \<noteq> ref_next s \<longrightarrow>
      (\<exists>pg. reconciled s' = reconciled s @ [(pg, r)] \<and>
            parent_ref pg = Ref_slot (cref_addr s') (ref_next s) \<and>
            cref s' (ref_next s) = recno s \<and> slot_live s' (parent_ref pg))"
  proof (intro allI impI)
    fix r s'
    assume a: "is_col_leaf (page_type s) \<and> wt_bulk_col_page env s = Inr (r, s') \<and>
        ref_next s' \<noteq> ref_next s"
    then have run: "wt_bulk_col_page env s = Inr (r, s')" and ne: "ref_next s' \<noteq> ref_next s"
      and leaf: "is_col_leaf (page_type s)" by simp_all
    note z = col_page_flushed [OF run ne]
    have pt: "page_type s' = page_type s" using col_page_frame [OF run] by simp
    from z(1) obtain pg where pg: "reconciled s' = reconciled s @ [(pg, r)]"
      "parent_ref pg = Ref_slot (cref_addr s') (ref_next s)" by blast
    with z(4,5) leaf pt
    show "\<exists>pg. reconciled s' = reconciled s @ [(pg, r)] \<and>
            parent_ref pg = Ref_slot (cref_addr s') (ref_next s) \<and>
            cref s' (ref_next s) = recno s \<and> slot_live s' (parent_ref pg)"
      by (intro exI [of _ pg]) (simp add: slot_live_def)
  qed
  have B: "\<forall>r s'. page_type s = WT_PAGE_ROW_LEAF \<and> wt_bulk_row_page env s = Inr (r, s') \<and>
        ref_next s' \<noteq> ref_next s \<longrightarrow>
      (\<exists>pg. reconciled s' = reconciled s @ [(pg, r)] \<and>
            parent_ref pg = Ref_slot (rref_addr s') (ref_next s) \<and>
            rref s' (ref_next s) = ins_key (hd (ins_base s)) \<and>
            slot_live s' (parent_ref pg))"
  proof (intro allI impI)
    fix r s'
    assume a: "page_type s = WT_PAGE_ROW_LEAF \<and> wt_bulk_row_page env s = Inr (r, s') \<and>
        ref_next s' \<noteq> ref_next s"
    then have run: "wt_bulk_row_page env s = Inr (r, s')" and ne: "ref_next s' \<noteq> ref_next s"
      and leaf: "page_type s = WT_PAGE_ROW_LEAF" by simp_all
    note z = row_page_flushed [OF run ne]
    have pt: "page_type s' = page_type s" using row_page_frame [OF run] by simp
    from z(1) obtain pg where pg: "reconciled s' = reconciled s @ [(pg, r)]"
      "parent_ref pg = Ref_slot (rref_addr s') (ref_next s)" by blast
    with z(4,5) leaf pt
    show "\<exists>pg. reconciled s' = reconciled s @ [(pg, r)] \<and>
            parent_ref pg = Ref_slot (rref_addr s') (ref_next s) \<and>
            rref s' (ref_next s) = ins_key (hd (ins_base s)) \<and>
            slot_live s' (parent_ref pg)"
      by (intro exI [of _ pg]) (simp add: slot_live_def is_col_leaf_def)
  qed
  have C: "\<forall>p r s'. slot_live s p \<and>
        (wt_bulk_insert env s = Inr (r, s') \<or> wt_bulk_end env s = Inr (r, s')) \<and>
        ref_entries s' = ref_entries s \<longrightarrow>
      slot_live s' p"
  proof (intro allI impI)
    fix p r s'
    assume a: "slot_live s p \<and>
        (wt_bulk_insert env s = Inr (r, s') \<or> wt_bulk_end env s = Inr (r, s')) \<and>
        ref_entries s' = ref_entries s"
    then have "tracks s s'" using bulk_insert_tracks bulk_end_tracks by blast
    with a show "slot_live s' p"
      by (cases p) (simp_all add: slot_live_def tracks_def)
  qed
  from A B C show ?thesis by (intro conjI)
qed

theorem back_ref_live_until_growth_witness:
  "is_col_leaf (page_type (col_linked ((started BTREE_COL_VAR 3)\<lparr>cur_value := ''10''\<rparr>))) \<and>
   (\<exists>s' s'' pg.
      wt_bulk_col_page (env_fail_at {})
        (col_linked ((started BTREE_COL_VAR 3)\<lparr>cur_value := ''10''\<rparr>)) = Inr (0, s') \<and>
      last (reconciled s') = (pg, 0) \<and> parent_ref pg = Ref_slot (cref_addr s') 0 \<and>
      slot_live s' (parent_ref pg) \<and>
      wt_bulk_insert (env_fail_at {}) s' = Inr (0, s'') \<and>
      ref_entries s'' = ref_entries s' \<and> slot_live s'' (parent_ref pg))"
proof -
  let ?e = "env_fail_at {}"
  let ?x = "col_linked ((started BTREE_COL_VAR 3)\<lparr>cur_value := ''10''\<rparr>)"
  have x: "is_col_leaf (page_type ?x)" "ref_next ?x = 0" "reconciled ?x = []"
    by (simp_all add: col_linked_def example_defs run_defs)
  have "\<exists>s' s''. wt_bulk_col_page ?e ?x = Inr (0, s') \<and> ref_next s' = 1 \<and>
      wt_bulk_insert ?e s' = Inr (0, s'') \<and> ref_entries s'' = ref_entries s'"
    by (simp add: col_linked_def active_upd_def example_defs run_defs)
  then obtain s' s'' where pg: "wt_bulk_col_page ?e ?x = Inr (0, s')" and n1: "ref_next s' = 1"
    and ins: "wt_bulk_insert ?e s' = Inr (0, s'')" and same: "ref_entries s'' = ref_entries s'"
    by (elim exE conjE)
  from x pg n1 have "is_col_leaf (page_type ?x) \<and> wt_bulk_col_page ?e ?x = Inr (0, s') \<and>
      ref_next s' \<noteq> ref_next ?x" by simp
  from back_ref_live_until_growth [of ?x ?e, THEN conjunct1, rule_format, OF this] x
  obtain pg where l: "last (reconciled s') = (pg, 0)"
    and pr: "parent_ref pg = Ref_slot (cref_addr s') 0" and live: "slot_live s' (parent_ref pg)"
    by auto
  from live ins same have "slot_live s' (parent_ref pg) \<and>
      (wt_bulk_insert ?e s' = Inr (0, s'') \<or> wt_bulk_end ?e s' = Inr (0, s'')) \<and>
      ref_entries s'' = ref_entries s'" by simp
  from back_ref_live_until_growth [of s' ?e, THEN conjunct2, THEN conjunct2, rule_format, OF this]
  have live2: "slot_live s'' (parent_ref pg)" .
  show ?thesis
    by (intro conjI exI [of _ s'] exI [of _ s''] exI [of _ pg])
       (rule x pg l pr live ins same live2)+
qed

end
